theory Spec2Isabelle
  imports Complex_Main
begin

section \<open>Characters, tokens and the session state\<close>

text \<open>
  The program reads standard input one character at a time with the C library's
  \<^verbatim>\<open>getchar\<close>, which returns the next byte as a non-negative \<^verbatim>\<open>int\<close> or
  \<^verbatim>\<open>EOF\<close> (-1). Characters that are held in an \<^verbatim>\<open>int\<close> are modelled as \<open>int\<close>,
  the remaining input as a list of bytes.
\<close>

definition EOF :: int where
  "EOF = - 1"

text \<open>The classification functions of \<^verbatim>\<open>ctype.h\<close> in the C locale.\<close>

definition isspace :: "int \<Rightarrow> bool" where
  "isspace c = (c = 32 \<or> c = 9 \<or> c = 10 \<or> c = 11 \<or> c = 12 \<or> c = 13)"

definition isdigit :: "int \<Rightarrow> bool" where
  "isdigit c = (48 \<le> c \<and> c \<le> 57)"

definition isalpha :: "int \<Rightarrow> bool" where
  "isalpha c = ((65 \<le> c \<and> c \<le> 90) \<or> (97 \<le> c \<and> c \<le> 122))"

definition isalnum :: "int \<Rightarrow> bool" where
  "isalnum c = (isalpha c \<or> isdigit c)"

definition isascii :: "int \<Rightarrow> bool" where
  "isascii c = (0 \<le> c \<and> c \<le> 127)"

text \<open>\<^verbatim>\<open>enum Token\<close>: the named tokens are negative, a punctuation token is its character code.\<close>

definition tok_eof :: int where
  "tok_eof = - 1"

definition tok_def :: int where
  "tok_def = - 2"

definition tok_extern :: int where
  "tok_extern = - 3"

definition tok_identifier :: int where
  "tok_identifier = - 4"

definition tok_number :: int where
  "tok_number = - 5"

lemmas Token_defs = tok_eof_def tok_def_def tok_extern_def tok_identifier_def tok_number_def

text \<open>
  The globals of the program and the two streams it touches. \<open>last_char\<close> is the static
  local of \<^verbatim>\<open>getTok\<close>. \<open>num_val\<close> is a \<^verbatim>\<open>double\<close> in the source; the model keeps the exact
  decimal value that \<^verbatim>\<open>strtod\<close> converts (the rounding to binary64 is not modelled; it
  is the identity on the small integers and on zero). An \<^verbatim>\<open>int\<close> of the source is an
  \<open>int\<close> here: the only arithmetic on one is \<^verbatim>\<open>tok_prec + 1\<close>, on a precedence of the
  table, which \<open>main\<close> fills with values up to 40. \<open>stderr\<close> is the list of the strings
  printed so far, one for each \<^verbatim>\<open>fprintf\<close>, without the newline.
\<close>

record state =
  stdin :: "char list"
  last_char :: int
  identifier_str :: string
  num_val :: rat
  cur_tok :: int
  BinopPrecedence :: "char \<rightharpoonup> int"
  stderr :: "string list"

text \<open>The state at process start: \<^verbatim>\<open>last_char = ' '\<close>, the other statics zero or empty.\<close>

definition initial_state :: "char list \<Rightarrow> state" where
  "initial_state inp =
     \<lparr>stdin = inp, last_char = 32, identifier_str = [], num_val = 0, cur_tok = 0,
      BinopPrecedence = Map.empty, stderr = []\<rparr>"

section \<open>Lexer\<close>

text \<open>The statement \<^verbatim>\<open>last_char = getchar();\<close>\<close>

definition getchar :: "state \<Rightarrow> state" where
  "getchar s =
     (case stdin s of
        [] \<Rightarrow> s\<lparr>last_char := EOF\<rparr>
      | c # cs \<Rightarrow> s\<lparr>last_char := of_char c, stdin := cs\<rparr>)"

text \<open>\<^verbatim>\<open>while (isspace(last_char)) last_char = getchar();\<close>\<close>

function skip_whitespace :: "state \<Rightarrow> state" where
  "skip_whitespace s = (if isspace (last_char s) then skip_whitespace (getchar s) else s)"
  by pat_completeness auto
termination
  by (relation "measure (\<lambda>s. length (stdin s) + (if isspace (last_char s) then 1 else 0))")
     (auto simp: getchar_def isspace_def EOF_def split: list.splits)

declare skip_whitespace.simps [simp del]

text \<open>\<^verbatim>\<open>while (isalnum((last_char = getchar()))) identifier_str += last_char;\<close>\<close>

function identifier_loop :: "state \<Rightarrow> state" where
  "identifier_loop s =
     (let s1 = getchar s in
      if isalnum (last_char s1)
      then identifier_loop (s1\<lparr>identifier_str := identifier_str s1 @ [char_of (last_char s1)]\<rparr>)
      else s1)"
  by pat_completeness auto
termination
  by (relation "measure (\<lambda>s. length (stdin s))")
     (auto simp: getchar_def isalnum_def isalpha_def isdigit_def EOF_def split: list.splits)

declare identifier_loop.simps [simp del]

text \<open>
  \<^verbatim>\<open>do { num_str += last_char; last_char = getchar(); }
  while (isdigit(last_char) || last_char == '.');\<close>
\<close>

function number_loop :: "string \<Rightarrow> state \<Rightarrow> string \<times> state" where
  "number_loop num_str s =
     (let num_str1 = num_str @ [char_of (last_char s)]; s1 = getchar s in
      if isdigit (last_char s1) \<or> last_char s1 = 46
      then number_loop num_str1 s1
      else (num_str1, s1))"
  by pat_completeness auto
termination
  by (relation "measure (\<lambda>(num_str, s). length (stdin s))")
     (auto simp: getchar_def isdigit_def EOF_def split: list.splits)

declare number_loop.simps [simp del]

text \<open>
  Modelled from the spec: the C library's \<^verbatim>\<open>strtod\<close>, which is not part of the sources.
  The lexer only hands it buffers of digits and dots. ISO C: the longest initial
  subject sequence is a nonempty sequence of decimal digits optionally containing a
  radix character; if no conversion can be performed, zero is returned.
\<close>

definition is_digit_char :: "char \<Rightarrow> bool" where
  "is_digit_char c = isdigit (of_char c)"

definition digits_value :: "string \<Rightarrow> nat" where
  "digits_value ds = foldl (\<lambda>a c. 10 * a + (of_char c - 48)) 0 ds"

definition strtod :: "string \<Rightarrow> rat" where
  "strtod str =
     (let ip = takeWhile is_digit_char str;
          rest = dropWhile is_digit_char str;
          fp = (case rest of [] \<Rightarrow> [] | c # r \<Rightarrow> if c = CHR ''.'' then takeWhile is_digit_char r else [])
      in if ip = [] \<and> fp = [] then 0
         else of_nat (digits_value ip) + of_nat (digits_value fp) / 10 ^ length fp)"

text \<open>\<^verbatim>\<open>getTok\<close>: return the next token from standard input.\<close>

definition getTok :: "state \<Rightarrow> int \<times> state" where
  "getTok s0 =
     (let s = skip_whitespace s0 in
      if isalpha (last_char s) then
        (let s1 = identifier_loop (s\<lparr>identifier_str := [char_of (last_char s)]\<rparr>) in
         if identifier_str s1 = ''def'' then (tok_def, s1)
         else if identifier_str s1 = ''extern'' then (tok_extern, s1)
         else (tok_identifier, s1))
      else if isdigit (last_char s) \<or> last_char s = 46 then
        (let (num_str, s1) = number_loop [] s in
         (tok_number, s1\<lparr>num_val := strtod num_str\<rparr>))
      else if last_char s = EOF then (tok_eof, s)
      else
        (let this_char = last_char s; s1 = getchar s in
         (this_char, s1)))"

section \<open>Abstract syntax tree\<close>

datatype ExprAST =
    NumberExprAST rat
  | VariableExprAST string
  | BinaryExprAST char ExprAST ExprAST
  | CallExprAST string "ExprAST list"

datatype PrototypeAST = PrototypeAST string "string list"

datatype FunctionAST = FunctionAST PrototypeAST ExprAST

section \<open>Parser\<close>

text \<open>\<^verbatim>\<open>getNextToken\<close>: \<^verbatim>\<open>return cur_tok = getTok();\<close>\<close>

definition getNextToken :: "state \<Rightarrow> state" where
  "getNextToken s = (let (tok, s1) = getTok s in s1\<lparr>cur_tok := tok\<rparr>)"

text \<open>
  \<^verbatim>\<open>BinopPrecedence[key]\<close> on a \<^verbatim>\<open>std::map\<close>: \<^verbatim>\<open>operator[]\<close> returns the
  mapped value and, when the key is absent, first inserts it with the value 0.
\<close>

definition map_subscript :: "(char \<rightharpoonup> int) \<Rightarrow> char \<Rightarrow> int \<times> (char \<rightharpoonup> int)" where
  "map_subscript m k = (case m k of None \<Rightarrow> (0, m(k \<mapsto> 0)) | Some v \<Rightarrow> (v, m))"

definition getTokPrecedence :: "state \<Rightarrow> int \<times> state" where
  "getTokPrecedence s =
     (if \<not> isascii (cur_tok s) then (- 1, s)
      else
        (let (tok_prec, m) = map_subscript (BinopPrecedence s) (char_of (cur_tok s));
             s1 = s\<lparr>BinopPrecedence := m\<rparr>
         in if tok_prec \<le> 0 then (- 1, s1) else (tok_prec, s1)))"

text \<open>\<^verbatim>\<open>fprintf(stderr, ...)\<close> appends a line to the diagnostic stream.\<close>

definition fprintf_stderr :: "string \<Rightarrow> state \<Rightarrow> state" where
  "fprintf_stderr msg s = s\<lparr>stderr := stderr s @ [msg]\<rparr>"

text \<open>\<^verbatim>\<open>logError\<close> and \<^verbatim>\<open>logErrorP\<close> print the message and return \<^verbatim>\<open>nullptr\<close>.\<close>

definition logError :: "string \<Rightarrow> state \<Rightarrow> 'a option \<times> state" where
  "logError str s = (None, fprintf_stderr (''Error: '' @ str) s)"

definition logErrorP :: "string \<Rightarrow> state \<Rightarrow> 'a option \<times> state" where
  "logErrorP str s = logError str s"

definition parseNumberExpr :: "state \<Rightarrow> ExprAST option \<times> state" where
  "parseNumberExpr s = (let result = NumberExprAST (num_val s) in (Some result, getNextToken s))"

text \<open>
  The expression parser is mutually recursive and its recursion follows the input, so
  the functions take a call budget: each call of one of them spends one unit, and
  \<open>None\<close> means that the budget ran out. A returned \<open>Some (r, s)\<close> is the C++ result
  \<open>r\<close> (\<open>None\<close> for \<^verbatim>\<open>nullptr\<close>) and the state the call leaves. \<open>parseArgs\<close> is the
  \<^verbatim>\<open>while (true)\<close> loop of \<^verbatim>\<open>parseIdentifierExpr\<close>; the loop of \<^verbatim>\<open>parseBinOpRHS\<close> is
  its tail call. The characters: 40 is \<^verbatim>\<open>(\<close>, 41 is \<^verbatim>\<open>)\<close>, 44 is the comma.
\<close>

fun parsePrimary :: "nat \<Rightarrow> state \<Rightarrow> (ExprAST option \<times> state) option"
  and parseParenExpr :: "nat \<Rightarrow> state \<Rightarrow> (ExprAST option \<times> state) option"
  and parseIdentifierExpr :: "nat \<Rightarrow> state \<Rightarrow> (ExprAST option \<times> state) option"
  and parseArgs :: "nat \<Rightarrow> ExprAST list \<Rightarrow> state \<Rightarrow> (ExprAST list option \<times> state) option"
  and parseBinOpRHS :: "nat \<Rightarrow> int \<Rightarrow> ExprAST \<Rightarrow> state \<Rightarrow> (ExprAST option \<times> state) option"
  and parseExpression :: "nat \<Rightarrow> state \<Rightarrow> (ExprAST option \<times> state) option"
where
  "parsePrimary 0 s = None"
| "parsePrimary (Suc n) s =
     (if cur_tok s = tok_identifier then parseIdentifierExpr n s
      else if cur_tok s = tok_number then Some (parseNumberExpr s)
      else if cur_tok s = 40 then parseParenExpr n s
      else Some (logError ''unknown token when expecting an expression'' s))"
| "parseParenExpr 0 s = None"
| "parseParenExpr (Suc n) s =
     (let s1 = getNextToken s in
      case parseExpression n s1 of
        None \<Rightarrow> None
      | Some (None, s2) \<Rightarrow> Some (None, s2)
      | Some (Some v, s2) \<Rightarrow>
          if cur_tok s2 \<noteq> 41 then Some (logError (''expected '' @ [CHR 0x27, CHR 0x29, CHR 0x27]) s2)
          else Some (Some v, getNextToken s2))"
| "parseIdentifierExpr 0 s = None"
| "parseIdentifierExpr (Suc n) s =
     (let id_name = identifier_str s;
          s1 = getNextToken s
      in if cur_tok s1 \<noteq> 40 then Some (Some (VariableExprAST id_name), s1)
         else
           (let s2 = getNextToken s1 in
            if cur_tok s2 \<noteq> 41 then
              (case parseArgs n [] s2 of
                 None \<Rightarrow> None
               | Some (None, s3) \<Rightarrow> Some (None, s3)
               | Some (Some args, s3) \<Rightarrow> Some (Some (CallExprAST id_name args), getNextToken s3))
            else Some (Some (CallExprAST id_name []), getNextToken s2)))"
| "parseArgs 0 args s = None"
| "parseArgs (Suc n) args s =
     (case parseExpression n s of
        None \<Rightarrow> None
      | Some (None, s1) \<Rightarrow> Some (None, s1)
      | Some (Some arg, s1) \<Rightarrow>
          (let args1 = args @ [arg] in
           if cur_tok s1 = 41 then Some (Some args1, s1)
           else if cur_tok s1 \<noteq> 44
             then Some (logError (''Expected '' @ [CHR 0x27, CHR 0x29, CHR 0x27] @ '' or ''
                                    @ [CHR 0x27, CHR 0x2C, CHR 0x27] @ '' in argument list'') s1)
           else parseArgs n args1 (getNextToken s1)))"
| "parseBinOpRHS 0 expr_prec lhs s = None"
| "parseBinOpRHS (Suc n) expr_prec lhs s =
     (let (tok_prec, s1) = getTokPrecedence s in
      if tok_prec < expr_prec then Some (Some lhs, s1)
      else
        (let bin_op = cur_tok s1;
             s2 = getNextToken s1
         in case parsePrimary n s2 of
              None \<Rightarrow> None
            | Some (None, s3) \<Rightarrow> Some (None, s3)
            | Some (Some rhs, s3) \<Rightarrow>
                (let (next_prec, s4) = getTokPrecedence s3 in
                 if tok_prec < next_prec then
                   (case parseBinOpRHS n (tok_prec + 1) rhs s4 of
                      None \<Rightarrow> None
                    | Some (None, s5) \<Rightarrow> Some (None, s5)
                    | Some (Some rhs1, s5) \<Rightarrow>
                        parseBinOpRHS n expr_prec (BinaryExprAST (char_of bin_op) lhs rhs1) s5)
                 else parseBinOpRHS n expr_prec (BinaryExprAST (char_of bin_op) lhs rhs) s4)))"
| "parseExpression 0 s = None"
| "parseExpression (Suc n) s =
     (case parsePrimary n s of
        None \<Rightarrow> None
      | Some (None, s1) \<Rightarrow> Some (None, s1)
      | Some (Some lhs, s1) \<Rightarrow> parseBinOpRHS n 0 lhs s1)"

text \<open>
  \<^verbatim>\<open>while (getNextToken() == tok_identifier) arg_names.push_back(identifier_str);\<close>
  of \<^verbatim>\<open>parsePrototype\<close>, with a budget of iterations.
\<close>

fun parsePrototype_names :: "nat \<Rightarrow> string list \<Rightarrow> state \<Rightarrow> (string list \<times> state) option" where
  "parsePrototype_names 0 arg_names s = None"
| "parsePrototype_names (Suc n) arg_names s =
     (let s1 = getNextToken s in
      if cur_tok s1 = tok_identifier
      then parsePrototype_names n (arg_names @ [identifier_str s1]) s1
      else Some (arg_names, s1))"

definition parsePrototype :: "nat \<Rightarrow> state \<Rightarrow> (PrototypeAST option \<times> state) option" where
  "parsePrototype n s =
     (if cur_tok s \<noteq> tok_identifier then Some (logErrorP ''Expected function name in prototype'' s)
      else
        (let fn_name = identifier_str s;
             s1 = getNextToken s
         in if cur_tok s1 \<noteq> 40
            then Some (logErrorP (''Expected '' @ [CHR 0x27, CHR 0x28, CHR 0x27] @ '' in prototype'') s1)
            else
              (case parsePrototype_names n [] s1 of
                 None \<Rightarrow> None
               | Some (arg_names, s2) \<Rightarrow>
                   if cur_tok s2 \<noteq> 41
                   then Some (logErrorP (''Expected '' @ [CHR 0x27, CHR 0x29, CHR 0x27] @ '' in prototype'') s2)
                   else Some (Some (PrototypeAST fn_name arg_names), getNextToken s2))))"

definition parseDefinition :: "nat \<Rightarrow> state \<Rightarrow> (FunctionAST option \<times> state) option" where
  "parseDefinition n s =
     (let s1 = getNextToken s in
      case parsePrototype n s1 of
        None \<Rightarrow> None
      | Some (None, s2) \<Rightarrow> Some (None, s2)
      | Some (Some proto, s2) \<Rightarrow>
          (case parseExpression n s2 of
             None \<Rightarrow> None
           | Some (None, s3) \<Rightarrow> Some (None, s3)
           | Some (Some e, s3) \<Rightarrow> Some (Some (FunctionAST proto e), s3)))"

definition parseTopLevelExpr :: "nat \<Rightarrow> state \<Rightarrow> (FunctionAST option \<times> state) option" where
  "parseTopLevelExpr n s =
     (case parseExpression n s of
        None \<Rightarrow> None
      | Some (None, s1) \<Rightarrow> Some (None, s1)
      | Some (Some e, s1) \<Rightarrow>
          (let proto = PrototypeAST [] [] in Some (Some (FunctionAST proto e), s1)))"

definition parseExtern :: "nat \<Rightarrow> state \<Rightarrow> (PrototypeAST option \<times> state) option" where
  "parseExtern n s = parsePrototype n (getNextToken s)"

section \<open>Top-level parsing\<close>

definition handleDefinition :: "nat \<Rightarrow> state \<Rightarrow> state option" where
  "handleDefinition n s =
     (case parseDefinition n s of
        None \<Rightarrow> None
      | Some (Some f, s1) \<Rightarrow> Some (fprintf_stderr ''Parsed a function definition.'' s1)
      | Some (None, s1) \<Rightarrow> Some (getNextToken s1))"

definition handleExtern :: "nat \<Rightarrow> state \<Rightarrow> state option" where
  "handleExtern n s =
     (case parseExtern n s of
        None \<Rightarrow> None
      | Some (Some p, s1) \<Rightarrow> Some (fprintf_stderr ''Parsed an extern'' s1)
      | Some (None, s1) \<Rightarrow> Some (getNextToken s1))"

definition handleTopLevelExpression :: "nat \<Rightarrow> state \<Rightarrow> state option" where
  "handleTopLevelExpression n s =
     (case parseTopLevelExpr n s of
        None \<Rightarrow> None
      | Some (Some f, s1) \<Rightarrow> Some (fprintf_stderr ''Parsed a top-level expr'' s1)
      | Some (None, s1) \<Rightarrow> Some (getNextToken s1))"

text \<open>
  One pass through the body of the \<^verbatim>\<open>while (true)\<close> of \<^verbatim>\<open>mainLoop\<close> after the prompt,
  for a current token other than \<^verbatim>\<open>tok_eof\<close>: the \<^verbatim>\<open>switch\<close>. 59 is the semicolon.
\<close>

definition dispatch :: "nat \<Rightarrow> state \<Rightarrow> state option" where
  "dispatch n s =
     (if cur_tok s = 59 then Some (getNextToken s)
      else if cur_tok s = tok_def then handleDefinition n s
      else if cur_tok s = tok_extern then handleExtern n s
      else handleTopLevelExpression n s)"

text \<open>\<^verbatim>\<open>mainLoop\<close>; the budget bounds the iterations and each parse an iteration starts.\<close>

fun mainLoop :: "nat \<Rightarrow> state \<Rightarrow> state option" where
  "mainLoop 0 s = None"
| "mainLoop (Suc n) s =
     (let s0 = fprintf_stderr ''ready> '' s in
      if cur_tok s0 = tok_eof then Some s0
      else (case dispatch n s0 of None \<Rightarrow> None | Some s1 \<Rightarrow> mainLoop n s1))"

text \<open>
  \<^verbatim>\<open>main\<close>: install the standard binary operators, prime the first token, run the loop.
  \<open>main_primed\<close> is the state in which \<^verbatim>\<open>main\<close> calls \<^verbatim>\<open>mainLoop\<close>.
\<close>

definition install_operators :: "state \<Rightarrow> state" where
  "install_operators s =
     s\<lparr>BinopPrecedence :=
         (BinopPrecedence s)(CHR ''<'' \<mapsto> 10, CHR ''+'' \<mapsto> 20, CHR ''-'' \<mapsto> 20, CHR ''*'' \<mapsto> 40)\<rparr>"

definition main_primed :: "char list \<Rightarrow> state" where
  "main_primed inp =
     getNextToken (fprintf_stderr ''ready> '' (install_operators (initial_state inp)))"

definition main :: "nat \<Rightarrow> char list \<Rightarrow> state option" where
  "main n inp = mainLoop n (main_primed inp)"

section \<open>Measures and observers used in the statements\<close>

text \<open>
  What the lexer still has to read: nothing once the lookahead is \<^verbatim>\<open>EOF\<close> (\<open>getTok\<close> then
  never calls \<^verbatim>\<open>getchar\<close>), else the lookahead and the rest of the input. \<open>pending\<close>
  also counts the current token of the parser when it is not \<open>tok_eof\<close>.
\<close>

definition lexer_pending :: "state \<Rightarrow> nat" where
  "lexer_pending s = (if last_char s = EOF then 0 else Suc (length (stdin s)))"

definition pending :: "state \<Rightarrow> nat" where
  "pending s = 2 * lexer_pending s + (if cur_tok s = tok_eof then 0 else 1)"

text \<open>\<open>k\<close> calls of \<open>getTok\<close> in a row: the tokens they return and the state they leave.\<close>

fun getTok_times :: "nat \<Rightarrow> state \<Rightarrow> int list \<times> state" where
  "getTok_times 0 s = ([], s)"
| "getTok_times (Suc k) s =
     (let (tok, s1) = getTok s; (toks, s2) = getTok_times k s1 in (tok # toks, s2))"

text \<open>
  \<open>budget_step n\<close>: a call that returns within the budget \<open>n\<close> returns the same with
  one unit more.
\<close>

definition budget_step :: "nat \<Rightarrow> bool" where
  "budget_step n \<longleftrightarrow>
     (\<forall>s r. parsePrimary n s = Some r \<longrightarrow> parsePrimary (Suc n) s = Some r) \<and>
     (\<forall>s r. parseParenExpr n s = Some r \<longrightarrow> parseParenExpr (Suc n) s = Some r) \<and>
     (\<forall>s r. parseIdentifierExpr n s = Some r \<longrightarrow> parseIdentifierExpr (Suc n) s = Some r) \<and>
     (\<forall>a s r. parseArgs n a s = Some r \<longrightarrow> parseArgs (Suc n) a s = Some r) \<and>
     (\<forall>p l s r. parseBinOpRHS n p l s = Some r \<longrightarrow> parseBinOpRHS (Suc n) p l s = Some r) \<and>
     (\<forall>s r. parseExpression n s = Some r \<longrightarrow> parseExpression (Suc n) s = Some r)"

text \<open>
  The parser changes the state only through three operations: \<open>getNextToken\<close>,
  \<open>getTokPrecedence\<close> and a message on \<open>stderr\<close>. \<open>reaches s t\<close>: \<open>t\<close> comes from \<open>s\<close> by
  a sequence of them. \<open>reaches_step n\<close>: the parse functions with budget \<open>n\<close> only do that.
\<close>

definition primitive_step :: "state \<Rightarrow> state \<Rightarrow> bool" where
  "primitive_step s t \<longleftrightarrow>
     t = getNextToken s \<or> t = snd (getTokPrecedence s) \<or> (\<exists>msg. t = fprintf_stderr msg s)"

definition reaches :: "state \<Rightarrow> state \<Rightarrow> bool" where
  "reaches = rtranclp primitive_step"

definition reaches_step :: "nat \<Rightarrow> bool" where
  "reaches_step n \<longleftrightarrow>
     (\<forall>s r t. parsePrimary n s = Some (r, t) \<longrightarrow> reaches s t) \<and>
     (\<forall>s r t. parseParenExpr n s = Some (r, t) \<longrightarrow> reaches s t) \<and>
     (\<forall>s r t. parseIdentifierExpr n s = Some (r, t) \<longrightarrow> reaches s t) \<and>
     (\<forall>a s r t. parseArgs n a s = Some (r, t) \<longrightarrow> reaches s t) \<and>
     (\<forall>p l s r t. parseBinOpRHS n p l s = Some (r, t) \<longrightarrow> reaches s t) \<and>
     (\<forall>s r t. parseExpression n s = Some (r, t) \<longrightarrow> reaches s t)"

text \<open>
  \<open>table_extends m m1\<close>: the table \<open>m1\<close> has every entry of \<open>m\<close> with its value, and
  every other entry of \<open>m1\<close> has the value 0.
\<close>

definition table_extends :: "(char \<rightharpoonup> int) \<Rightarrow> (char \<rightharpoonup> int) \<Rightarrow> bool" where
  "table_extends m m1 \<longleftrightarrow> (\<forall>c. m1 c = m c \<or> (m c = None \<and> m1 c = Some 0))"

text \<open>
  The four operators that \<open>main\<close> installs; a table whose positive entries are among
  them; the operator characters of all \<open>BinaryExprAST\<close> nodes of a tree. \<open>ops_step n\<close>:
  with budget \<open>n\<close> the parse functions return trees with registered operators only.
\<close>

definition registered_operators :: "char set" where
  "registered_operators = {CHR ''<'', CHR ''+'', CHR ''-'', CHR ''*''}"

definition registered_only :: "(char \<rightharpoonup> int) \<Rightarrow> bool" where
  "registered_only m \<longleftrightarrow> (\<forall>c v. m c = Some v \<longrightarrow> 0 < v \<longrightarrow> c \<in> registered_operators)"

fun binary_ops :: "ExprAST \<Rightarrow> char set" where
  "binary_ops (NumberExprAST v) = {}"
| "binary_ops (VariableExprAST x) = {}"
| "binary_ops (BinaryExprAST op l r) = insert op (binary_ops l \<union> binary_ops r)"
| "binary_ops (CallExprAST f args) = (\<Union>a \<in> set args. binary_ops a)"

definition ops_step :: "nat \<Rightarrow> bool" where
  "ops_step n \<longleftrightarrow>
     (\<forall>s e t. registered_only (BinopPrecedence s) \<longrightarrow> parsePrimary n s = Some (Some e, t) \<longrightarrow>
        binary_ops e \<subseteq> registered_operators) \<and>
     (\<forall>s e t. registered_only (BinopPrecedence s) \<longrightarrow> parseParenExpr n s = Some (Some e, t) \<longrightarrow>
        binary_ops e \<subseteq> registered_operators) \<and>
     (\<forall>s e t. registered_only (BinopPrecedence s) \<longrightarrow> parseIdentifierExpr n s = Some (Some e, t) \<longrightarrow>
        binary_ops e \<subseteq> registered_operators) \<and>
     (\<forall>args s es t. registered_only (BinopPrecedence s) \<longrightarrow>
        (\<Union>a \<in> set args. binary_ops a) \<subseteq> registered_operators \<longrightarrow>
        parseArgs n args s = Some (Some es, t) \<longrightarrow>
        (\<Union>a \<in> set es. binary_ops a) \<subseteq> registered_operators) \<and>
     (\<forall>p lhs s e t. registered_only (BinopPrecedence s) \<longrightarrow> 0 \<le> p \<longrightarrow>
        binary_ops lhs \<subseteq> registered_operators \<longrightarrow>
        parseBinOpRHS n p lhs s = Some (Some e, t) \<longrightarrow>
        binary_ops e \<subseteq> registered_operators) \<and>
     (\<forall>s e t. registered_only (BinopPrecedence s) \<longrightarrow> parseExpression n s = Some (Some e, t) \<longrightarrow>
        binary_ops e \<subseteq> registered_operators)"

text \<open>
  \<open>total_step n\<close>: a budget of four units for each pending item and a few more is
  enough for each parse function to return.
\<close>

definition total_step :: "nat \<Rightarrow> bool" where
  "total_step n \<longleftrightarrow>
     (\<forall>s. 4 * pending s + 4 \<le> n \<longrightarrow> parsePrimary n s \<noteq> None) \<and>
     (\<forall>s. 4 * pending s + 3 \<le> n \<longrightarrow> parseParenExpr n s \<noteq> None) \<and>
     (\<forall>s. 4 * pending s + 1 \<le> n \<longrightarrow> parseIdentifierExpr n s \<noteq> None) \<and>
     (\<forall>a s. 4 * pending s + 6 \<le> n \<longrightarrow> parseArgs n a s \<noteq> None) \<and>
     (\<forall>p l s. 4 * pending s + 2 \<le> n \<longrightarrow> parseBinOpRHS n p l s \<noteq> None) \<and>
     (\<forall>s. 4 * pending s + 5 \<le> n \<longrightarrow> parseExpression n s \<noteq> None)"

text \<open>
  \<open>one_error s t\<close>: between \<open>s\<close> and \<open>t\<close> exactly one line was printed, and it is an
  \<^verbatim>\<open>Error:\<close> line of \<open>logError\<close>. \<open>error_step n\<close>: with budget \<open>n\<close>, a parse function that
  returns a tree has printed nothing and one that returns \<^verbatim>\<open>nullptr\<close> has printed one
  error.
\<close>

definition one_error :: "state \<Rightarrow> state \<Rightarrow> bool" where
  "one_error s t \<longleftrightarrow> (\<exists>msg. stderr t = stderr s @ [''Error: '' @ msg])"

definition error_step :: "nat \<Rightarrow> bool" where
  "error_step n \<longleftrightarrow>
     (\<forall>s e t. parsePrimary n s = Some (Some e, t) \<longrightarrow> stderr t = stderr s) \<and>
     (\<forall>s t. parsePrimary n s = Some (None, t) \<longrightarrow> one_error s t) \<and>
     (\<forall>s e t. parseParenExpr n s = Some (Some e, t) \<longrightarrow> stderr t = stderr s) \<and>
     (\<forall>s t. parseParenExpr n s = Some (None, t) \<longrightarrow> one_error s t) \<and>
     (\<forall>s e t. parseIdentifierExpr n s = Some (Some e, t) \<longrightarrow> stderr t = stderr s) \<and>
     (\<forall>s t. parseIdentifierExpr n s = Some (None, t) \<longrightarrow> one_error s t) \<and>
     (\<forall>a s e t. parseArgs n a s = Some (Some e, t) \<longrightarrow> stderr t = stderr s) \<and>
     (\<forall>a s t. parseArgs n a s = Some (None, t) \<longrightarrow> one_error s t) \<and>
     (\<forall>p l s e t. parseBinOpRHS n p l s = Some (Some e, t) \<longrightarrow> stderr t = stderr s) \<and>
     (\<forall>p l s t. parseBinOpRHS n p l s = Some (None, t) \<longrightarrow> one_error s t) \<and>
     (\<forall>s e t. parseExpression n s = Some (Some e, t) \<longrightarrow> stderr t = stderr s) \<and>
     (\<forall>s t. parseExpression n s = Some (None, t) \<longrightarrow> one_error s t)"

section \<open>The budget only has to be large enough\<close>

lemma budget_step_Suc:
  assumes "budget_step n"
  shows "budget_step (Suc n)"
proof -
  have P: "\<And>s r. parsePrimary n s = Some r \<Longrightarrow> parsePrimary (Suc n) s = Some r"
   and Pa: "\<And>s r. parseParenExpr n s = Some r \<Longrightarrow> parseParenExpr (Suc n) s = Some r"
   and I: "\<And>s r. parseIdentifierExpr n s = Some r \<Longrightarrow> parseIdentifierExpr (Suc n) s = Some r"
   and A: "\<And>a s r. parseArgs n a s = Some r \<Longrightarrow> parseArgs (Suc n) a s = Some r"
   and R: "\<And>p l s r. parseBinOpRHS n p l s = Some r \<Longrightarrow> parseBinOpRHS (Suc n) p l s = Some r"
   and E: "\<And>s r. parseExpression n s = Some r \<Longrightarrow> parseExpression (Suc n) s = Some r"
    using assms unfolding budget_step_def by blast+
  note [simp del] = parsePrimary.simps parseParenExpr.simps parseIdentifierExpr.simps
    parseArgs.simps parseBinOpRHS.simps parseExpression.simps
  have 1: "parsePrimary (Suc (Suc n)) s = Some (x, t)" if "parsePrimary (Suc n) s = Some (x, t)" for s x t
    using that I Pa
    by (subst parsePrimary.simps(2), subst (asm) parsePrimary.simps(2)) (auto split: if_splits)
  have 2: "parseParenExpr (Suc (Suc n)) s = Some (x, t)" if "parseParenExpr (Suc n) s = Some (x, t)" for s x t
    using that E
    by (subst parseParenExpr.simps(2), subst (asm) parseParenExpr.simps(2))
       (auto simp add: Let_def split: option.splits prod.splits if_splits)
  have 3: "parseIdentifierExpr (Suc (Suc n)) s = Some (x, t)" if "parseIdentifierExpr (Suc n) s = Some (x, t)" for s x t
    using that A
    by (subst parseIdentifierExpr.simps(2), subst (asm) parseIdentifierExpr.simps(2))
       (auto simp add: Let_def split: option.splits prod.splits if_splits)
  have 4: "parseArgs (Suc (Suc n)) a s = Some (x, t)" if "parseArgs (Suc n) a s = Some (x, t)" for a s x t
    using that A E
    by (subst parseArgs.simps(2), subst (asm) parseArgs.simps(2))
       (auto simp add: Let_def split: option.splits prod.splits if_splits)
  have 5: "parseBinOpRHS (Suc (Suc n)) p l s = Some (x, t)" if "parseBinOpRHS (Suc n) p l s = Some (x, t)" for p l s x t
    using that P R
    by (subst parseBinOpRHS.simps(2), subst (asm) parseBinOpRHS.simps(2))
       (auto simp add: Let_def split: option.splits prod.splits if_splits)
  have 6: "parseExpression (Suc (Suc n)) s = Some (x, t)" if "parseExpression (Suc n) s = Some (x, t)" for s x t
    using that P R
    by (subst parseExpression.simps(2), subst (asm) parseExpression.simps(2))
       (auto simp add: Let_def split: option.splits prod.splits if_splits)
  show ?thesis unfolding budget_step_def using 1 2 3 4 5 6 by auto
qed

lemma budget_step_all: "budget_step n"
  by (induction n) (simp_all add: budget_step_def [of 0] budget_step_Suc)

lemma parsePrimary_Suc: "parsePrimary n s = Some r \<Longrightarrow> parsePrimary (Suc n) s = Some r"
  using budget_step_all [of n] unfolding budget_step_def by blast

lemma parsePrimary_budget: "parsePrimary n s = Some r \<Longrightarrow> parsePrimary (n + k) s = Some r"
  by (induction k) (simp_all del: parsePrimary.simps add: parsePrimary_Suc)

lemma parseParenExpr_Suc: "parseParenExpr n s = Some r \<Longrightarrow> parseParenExpr (Suc n) s = Some r"
  using budget_step_all [of n] unfolding budget_step_def by blast

lemma parseParenExpr_budget: "parseParenExpr n s = Some r \<Longrightarrow> parseParenExpr (n + k) s = Some r"
  by (induction k) (simp_all del: parseParenExpr.simps add: parseParenExpr_Suc)

lemma parseIdentifierExpr_Suc: "parseIdentifierExpr n s = Some r \<Longrightarrow> parseIdentifierExpr (Suc n) s = Some r"
  using budget_step_all [of n] unfolding budget_step_def by blast

lemma parseIdentifierExpr_budget: "parseIdentifierExpr n s = Some r \<Longrightarrow> parseIdentifierExpr (n + k) s = Some r"
  by (induction k) (simp_all del: parseIdentifierExpr.simps add: parseIdentifierExpr_Suc)

lemma parseArgs_Suc: "parseArgs n a s = Some r \<Longrightarrow> parseArgs (Suc n) a s = Some r"
  using budget_step_all [of n] unfolding budget_step_def by blast

lemma parseArgs_budget: "parseArgs n a s = Some r \<Longrightarrow> parseArgs (n + k) a s = Some r"
  by (induction k) (simp_all del: parseArgs.simps add: parseArgs_Suc)

lemma parseBinOpRHS_Suc: "parseBinOpRHS n p l s = Some r \<Longrightarrow> parseBinOpRHS (Suc n) p l s = Some r"
  using budget_step_all [of n] unfolding budget_step_def by blast

lemma parseBinOpRHS_budget: "parseBinOpRHS n p l s = Some r \<Longrightarrow> parseBinOpRHS (n + k) p l s = Some r"
  by (induction k) (simp_all del: parseBinOpRHS.simps add: parseBinOpRHS_Suc)

lemma parseExpression_Suc: "parseExpression n s = Some r \<Longrightarrow> parseExpression (Suc n) s = Some r"
  using budget_step_all [of n] unfolding budget_step_def by blast

lemma parseExpression_budget: "parseExpression n s = Some r \<Longrightarrow> parseExpression (n + k) s = Some r"
  by (induction k) (simp_all del: parseExpression.simps add: parseExpression_Suc)

lemma map_option_fst_budget:
  assumes "\<And>r. f n = Some r \<Longrightarrow> f (n + k) = Some r" and "map_option fst (f n) = Some t"
  shows "map_option fst (f (n + k)) = Some t"
  using assms by (cases "f n") auto

section \<open>Lexer properties\<close>

lemma skip_whitespace_EOF: "last_char s = EOF \<Longrightarrow> skip_whitespace s = s"
  by (subst skip_whitespace.simps) (simp add: isspace_def EOF_def)

lemma getTok_at_EOF: "last_char s = EOF \<Longrightarrow> getTok s = (tok_eof, s)"
  by (simp add: getTok_def skip_whitespace_EOF Let_def isalpha_def isdigit_def EOF_def)

lemma getchar_frame [simp]:
  "cur_tok (getchar s) = cur_tok s"
  "BinopPrecedence (getchar s) = BinopPrecedence s"
  "stderr (getchar s) = stderr s"
  by (simp_all add: getchar_def split: list.splits)

lemma skip_whitespace_frame [simp]:
  "cur_tok (skip_whitespace s) = cur_tok s"
  "BinopPrecedence (skip_whitespace s) = BinopPrecedence s"
  "stderr (skip_whitespace s) = stderr s"
  by (induction s rule: skip_whitespace.induct, subst skip_whitespace.simps, simp)+

lemma identifier_loop_frame [simp]:
  "cur_tok (identifier_loop s) = cur_tok s"
  "BinopPrecedence (identifier_loop s) = BinopPrecedence s"
  "stderr (identifier_loop s) = stderr s"
  by (induction s rule: identifier_loop.induct, subst identifier_loop.simps, simp add: Let_def)+

lemma number_loop_frame [simp]:
  "cur_tok (snd (number_loop str s)) = cur_tok s"
  "BinopPrecedence (snd (number_loop str s)) = BinopPrecedence s"
  "stderr (snd (number_loop str s)) = stderr s"
  by (induction str s rule: number_loop.induct, subst number_loop.simps, simp add: Let_def)+

lemma getTok_frame [simp]:
  "cur_tok (snd (getTok s)) = cur_tok s"
  "BinopPrecedence (snd (getTok s)) = BinopPrecedence s"
  "stderr (snd (getTok s)) = stderr s"
  by (simp_all add: getTok_def Let_def case_prod_beta)

lemma getNextToken_alt: "getNextToken s = (snd (getTok s))\<lparr>cur_tok := fst (getTok s)\<rparr>"
  by (simp add: getNextToken_def case_prod_beta)

lemma getNextToken_frame [simp]:
  "BinopPrecedence (getNextToken s) = BinopPrecedence s"
  "stderr (getNextToken s) = stderr s"
  by (simp_all add: getNextToken_alt)

lemma getchar_pending: "last_char s \<noteq> EOF \<Longrightarrow> lexer_pending (getchar s) < lexer_pending s"
  by (auto simp: getchar_def lexer_pending_def EOF_def split: list.splits)

lemma isspace_not_EOF: "isspace c \<Longrightarrow> c \<noteq> EOF"
  by (auto simp: isspace_def EOF_def)

lemma isalnum_not_EOF: "isalnum c \<Longrightarrow> c \<noteq> EOF"
  by (auto simp: isalnum_def isalpha_def isdigit_def EOF_def)

lemma skip_whitespace_pending: "lexer_pending (skip_whitespace s) \<le> lexer_pending s"
proof (induction s rule: skip_whitespace.induct)
  case (1 s)
  show ?case
  proof (cases "isspace (last_char s)")
    case True
    with 1 have "lexer_pending (skip_whitespace (getchar s)) \<le> lexer_pending (getchar s)"
      by simp
    moreover have "lexer_pending (getchar s) < lexer_pending s"
      using True by (simp add: getchar_pending isspace_not_EOF)
    ultimately show ?thesis
      using True by (subst skip_whitespace.simps) simp
  next
    case False
    then show ?thesis
      by (subst skip_whitespace.simps) simp
  qed
qed

lemma skip_whitespace_not_space: "\<not> isspace (last_char (skip_whitespace s))"
  by (induction s rule: skip_whitespace.induct) (subst skip_whitespace.simps, simp)

lemma lexer_pending_identifier_str [simp]:
  "lexer_pending (s\<lparr>identifier_str := x\<rparr>) = lexer_pending s"
  by (simp add: lexer_pending_def)

lemma lexer_pending_num_val [simp]:
  "lexer_pending (s\<lparr>num_val := x\<rparr>) = lexer_pending s"
  by (simp add: lexer_pending_def)

lemma lexer_pending_cur_tok [simp]:
  "lexer_pending (s\<lparr>cur_tok := x\<rparr>) = lexer_pending s"
  by (simp add: lexer_pending_def)

lemma identifier_loop_pending:
  "last_char s \<noteq> EOF \<Longrightarrow> lexer_pending (identifier_loop s) < lexer_pending s"
proof (induction s rule: identifier_loop.induct)
  case (1 s)
  have step: "lexer_pending (getchar s) < lexer_pending s"
    using "1.prems" by (rule getchar_pending)
  show ?case
  proof (cases "isalnum (last_char (getchar s))")
    case True
    with "1.IH" [OF refl True]
    have "lexer_pending (identifier_loop (getchar s
            \<lparr>identifier_str := identifier_str (getchar s) @ [char_of (last_char (getchar s))]\<rparr>))
          < lexer_pending (getchar s)"
      by (simp add: isalnum_not_EOF)
    with step True show ?thesis
      by (subst identifier_loop.simps) (simp add: Let_def)
  next
    case False
    with step show ?thesis
      by (subst identifier_loop.simps) (simp add: Let_def)
  qed
qed

lemma number_loop_pending:
  "last_char s \<noteq> EOF \<Longrightarrow> lexer_pending (snd (number_loop str s)) < lexer_pending s"
proof (induction str s rule: number_loop.induct)
  case (1 str s)
  have step: "lexer_pending (getchar s) < lexer_pending s"
    using "1.prems" by (rule getchar_pending)
  show ?case
  proof (cases "isdigit (last_char (getchar s)) \<or> last_char (getchar s) = 46")
    case True
    then have "last_char (getchar s) \<noteq> EOF"
      by (auto simp: isdigit_def EOF_def)
    with "1.IH" [OF refl refl True]
    have "lexer_pending (snd (number_loop (str @ [char_of (last_char s)]) (getchar s)))
          < lexer_pending (getchar s)"
      by simp
    with step True show ?thesis
      by (subst number_loop.simps) (simp add: Let_def)
  next
    case False
    with step show ?thesis
      by (subst number_loop.simps) (simp add: Let_def)
  qed
qed

lemma getTok_pending:
  assumes "last_char s \<noteq> EOF"
  shows "lexer_pending (snd (getTok s)) < lexer_pending s"
proof -
  let ?s = "skip_whitespace s"
  have le: "lexer_pending ?s \<le> lexer_pending s"
    by (rule skip_whitespace_pending)
  have pos: "0 < lexer_pending s"
    using assms by (simp add: lexer_pending_def)
  consider (ident) "isalpha (last_char ?s)"
    | (num) "\<not> isalpha (last_char ?s)" "isdigit (last_char ?s) \<or> last_char ?s = 46"
    | (eof) "\<not> isalpha (last_char ?s)" "\<not> (isdigit (last_char ?s) \<or> last_char ?s = 46)"
        "last_char ?s = EOF"
    | (punct) "\<not> isalpha (last_char ?s)" "\<not> (isdigit (last_char ?s) \<or> last_char ?s = 46)"
        "last_char ?s \<noteq> EOF"
    by blast
  then show ?thesis
  proof cases
    case ident
    then have "last_char (?s\<lparr>identifier_str := [char_of (last_char ?s)]\<rparr>) \<noteq> EOF"
      by (auto simp: isalpha_def EOF_def)
    from identifier_loop_pending [OF this] le ident show ?thesis
      by (simp add: getTok_def Let_def)
  next
    case num
    then have "last_char ?s \<noteq> EOF"
      by (auto simp: isdigit_def EOF_def)
    from number_loop_pending [OF this, of "[]"] le num show ?thesis
      by (simp add: getTok_def Let_def case_prod_beta)
  next
    case eof
    then have "lexer_pending ?s = 0"
      by (simp add: lexer_pending_def)
    with pos eof show ?thesis
      by (simp add: getTok_def Let_def)
  next
    case punct
    from getchar_pending [OF punct(3)] le punct show ?thesis
      by (simp add: getTok_def Let_def)
  qed
qed

lemma getTok_eof_iff: "fst (getTok s) = tok_eof \<longleftrightarrow> last_char (skip_whitespace s) = EOF"
  by (auto simp: getTok_def Let_def case_prod_beta Token_defs isalpha_def isdigit_def EOF_def)

lemma getTok_eof_last_char: "fst (getTok s) = tok_eof \<Longrightarrow> last_char (snd (getTok s)) = EOF"
  by (auto simp: getTok_def Let_def case_prod_beta Token_defs isalpha_def isdigit_def EOF_def
      split: if_splits)

lemma pending_0_iff: "pending s = 0 \<longleftrightarrow> last_char s = EOF \<and> cur_tok s = tok_eof"
  by (simp add: pending_def lexer_pending_def)

lemma getNextToken_pending: "pending (getNextToken s) \<le> pending s - 1"
proof (cases "last_char s = EOF")
  case True
  then show ?thesis
    by (simp add: getNextToken_alt getTok_at_EOF pending_def lexer_pending_def)
next
  case False
  from getTok_pending [OF this] show ?thesis
    by (auto simp add: getNextToken_alt pending_def)
qed

lemma getNextToken_eof_pending:
  "cur_tok (getNextToken s) = tok_eof \<Longrightarrow> pending (getNextToken s) = 0"
  using getTok_eof_last_char [of s]
  by (simp add: getNextToken_alt pending_def lexer_pending_def)

lemma getNextToken_at_end: "pending s = 0 \<Longrightarrow> getNextToken s = s"
  by (simp add: pending_0_iff getNextToken_alt getTok_at_EOF)

lemma getTok_times_at_EOF: "last_char s = EOF \<Longrightarrow> getTok_times k s = (replicate k tok_eof, s)"
  by (induction k) (simp_all add: getTok_at_EOF)

text \<open>
  C8. Once the lexer's lookahead holds the end-of-input marker (\<^verbatim>\<open>getchar\<close> has returned
  \<^verbatim>\<open>EOF\<close>), any number \<open>k\<close> of calls of \<open>getTok\<close> return \<open>tok_eof\<close> each time and leave the
  whole state as it is: no input is consumed and nothing is printed. And a call that
  returns \<open>tok_eof\<close> leaves the lookahead at the marker, so that this holds after it.
\<close>

theorem getTok_idempotent_at_EOF:
  "(last_char s = EOF \<longrightarrow> getTok_times k s = (replicate k tok_eof, s)) \<and>
   (fst (getTok s) = tok_eof \<longrightarrow>
      getTok_times k (snd (getTok s)) = (replicate k tok_eof, snd (getTok s)))"
  by (simp add: getTok_times_at_EOF getTok_eof_last_char)

text \<open>After the input \<^verbatim>\<open>x\<close> has been read as an identifier, three more calls.\<close>

theorem getTok_idempotent_at_EOF_witness:
  "let s = snd (getTok (initial_state ''x''))
   in last_char s = EOF \<and> fst (getTok s) = tok_eof \<and>
      getTok_times 3 s = ([tok_eof, tok_eof, tok_eof], s) \<and>
      getTok_times 3 (snd (getTok s)) = ([tok_eof, tok_eof, tok_eof], snd (getTok s))"
proof -
  define s where "s = snd (getTok (initial_state ''x''))"
  have a: "last_char s = EOF"
    unfolding s_def by code_simp
  have b: "fst (getTok s) = tok_eof"
    unfolding s_def by code_simp
  have r: "replicate 3 tok_eof = [tok_eof, tok_eof, tok_eof]"
    by (simp add: eval_nat_numeral)
  from getTok_idempotent_at_EOF [of s 3] a b
  have "getTok_times 3 s = ([tok_eof, tok_eof, tok_eof], s) \<and>
        getTok_times 3 (snd (getTok s)) = ([tok_eof, tok_eof, tok_eof], snd (getTok s))"
    unfolding r by (simp del: getTok_times.simps)
  with a b show ?thesis
    unfolding Let_def s_def [symmetric] by (simp del: getTok_times.simps)
qed

lemma char_of_46: "char_of (46::int) = CHR ''.''"
  by code_simp

lemma strtod_dot: "strtod ''.'' = 0"
  by (simp add: strtod_def is_digit_char_def isdigit_def)

lemma getTok_dot:
  assumes "last_char s = 46"
    and "\<not> isdigit (last_char (getchar s))" and "last_char (getchar s) \<noteq> 46"
  shows "getTok s = (tok_number, (getchar s)\<lparr>num_val := 0\<rparr>)"
proof -
  have ws: "skip_whitespace s = s"
    using assms(1) by (subst skip_whitespace.simps) (simp add: isspace_def)
  have nl: "number_loop [] s = (''.'', getchar s)"
    using assms by (subst number_loop.simps) (simp add: Let_def char_of_46)
  show ?thesis
    using assms(1) by (simp add: getTok_def ws nl isalpha_def strtod_dot)
qed

lemma parse_dot: "map_option fst (parsePrimary 1 (main_primed ''.'')) = Some (Some (NumberExprAST 0))"
  by code_simp

text \<open>
  C10. When the current character is \<^verbatim>\<open>.\<close> (46) and the character that \<^verbatim>\<open>getchar\<close>
  delivers next (\<^verbatim>\<open>EOF\<close> included) is neither a digit nor \<^verbatim>\<open>.\<close>, \<open>getTok\<close> returns
  \<open>tok_number\<close>, sets \<open>num_val\<close> to 0 (\<^verbatim>\<open>strtod\<close> of the buffer \<^verbatim>\<open>.\<close>) and has read just
  that one character. So a lone \<^verbatim>\<open>.\<close> where an expression is expected parses as the
  numeric literal 0; the token is not the punctuation token 46.
\<close>

theorem getTok_lone_dot:
  "(last_char s = 46 \<and> \<not> isdigit (last_char (getchar s)) \<and> last_char (getchar s) \<noteq> 46 \<longrightarrow>
      getTok s = (tok_number, (getchar s)\<lparr>num_val := 0\<rparr>) \<and> fst (getTok s) \<noteq> 46) \<and>
   map_option fst (parsePrimary (1 + k) (main_primed ''.'')) = Some (Some (NumberExprAST 0))"
proof (intro conjI impI)
  show "map_option fst (parsePrimary (1 + k) (main_primed ''.'')) = Some (Some (NumberExprAST 0))"
    by (rule map_option_fst_budget [where f = "\<lambda>n. parsePrimary n (main_primed ''.'')"])
       (simp_all only: parsePrimary_budget parse_dot)
qed (simp_all add: getTok_dot Token_defs)

text \<open>In \<^verbatim>\<open>.+\<close> after the first character has been read: the \<^verbatim>\<open>.\<close> is the number 0, then \<^verbatim>\<open>+\<close>.\<close>

theorem getTok_lone_dot_witness:
  "let s = getchar (initial_state ''.+'')
   in last_char s = 46 \<and> last_char (getchar s) = 43 \<and>
      getTok s = (tok_number, (getchar s)\<lparr>num_val := 0\<rparr>) \<and> fst (getTok s) \<noteq> 46"
proof -
  define s where "s = getchar (initial_state ''.+'')"
  have a: "last_char s = 46"
    unfolding s_def by code_simp
  have b: "last_char (getchar s) = 43"
    unfolding s_def by code_simp
  from getTok_lone_dot [THEN conjunct1, rule_format, of s] a b
  have "getTok s = (tok_number, (getchar s)\<lparr>num_val := 0\<rparr>) \<and> fst (getTok s) \<noteq> 46"
    by (simp add: isdigit_def Token_defs)
  with a b show ?thesis
    unfolding Let_def s_def [symmetric] by (simp add: Token_defs)
qed

section \<open>Precedence climbing\<close>

lemma parse_1_2_3_mul: "map_option fst (parseExpression 7 (main_primed ''1+2*3'')) =
       Some (Some (BinaryExprAST CHR ''+'' (NumberExprAST 1)
                    (BinaryExprAST CHR ''*'' (NumberExprAST 2) (NumberExprAST 3))))"
  by code_simp

lemma parseBinOpRHS_continue:
  assumes "getTokPrecedence s = (tok_prec, s1)" and "\<not> tok_prec < expr_prec"
    and "parsePrimary n (getNextToken s1) = Some (Some rhs, s3)"
    and "getTokPrecedence s3 = (next_prec, s4)"
  shows "parseBinOpRHS (Suc n) expr_prec lhs s =
     (if tok_prec < next_prec then
        (case parseBinOpRHS n (tok_prec + 1) rhs s4 of
           None \<Rightarrow> None
         | Some (None, s5) \<Rightarrow> Some (None, s5)
         | Some (Some rhs1, s5) \<Rightarrow>
             parseBinOpRHS n expr_prec (BinaryExprAST (char_of (cur_tok s1)) lhs rhs1) s5)
      else parseBinOpRHS n expr_prec (BinaryExprAST (char_of (cur_tok s1)) lhs rhs) s4)"
  using assms by (simp add: Let_def del: parsePrimary.simps)

text \<open>
  C1. With the table of \<open>main\<close> the precedence of \<^verbatim>\<open>+\<close> (43) is 20 and that of \<^verbatim>\<open>*\<close> (42)
  is 40. For the input \<^verbatim>\<open>1+2*3\<close> \<open>parseExpression\<close> returns
  \<open>BinaryExpr('+', 1, BinaryExpr('*', 2, 3))\<close>, with every budget from 7 on. The mechanism:
  when \<open>parseBinOpRHS\<close> has consumed an operator of precedence \<open>tok_prec\<close> and parsed the
  primary after it, it parses the rest into the right-hand side (at \<open>tok_prec + 1\<close>) when
  the precedence \<open>next_prec\<close> of the token that follows is strictly greater than
  \<open>tok_prec\<close>, and otherwise combines at once.
\<close>

theorem parseExpression_precedence:
  "fst (getTokPrecedence ((main_primed ''1+2*3'')\<lparr>cur_tok := 43\<rparr>)) = 20 \<and>
   fst (getTokPrecedence ((main_primed ''1+2*3'')\<lparr>cur_tok := 42\<rparr>)) = 40 \<and>
   map_option fst (parseExpression (7 + k) (main_primed ''1+2*3'')) =
     Some (Some (BinaryExprAST CHR ''+'' (NumberExprAST 1)
                  (BinaryExprAST CHR ''*'' (NumberExprAST 2) (NumberExprAST 3)))) \<and>
   (\<forall>n expr_prec lhs s tok_prec s1 rhs s3 next_prec s4.
      getTokPrecedence s = (tok_prec, s1) \<and> \<not> tok_prec < expr_prec \<and>
      parsePrimary n (getNextToken s1) = Some (Some rhs, s3) \<and>
      getTokPrecedence s3 = (next_prec, s4) \<longrightarrow>
      parseBinOpRHS (Suc n) expr_prec lhs s =
        (if tok_prec < next_prec then
           (case parseBinOpRHS n (tok_prec + 1) rhs s4 of
              None \<Rightarrow> None
            | Some (None, s5) \<Rightarrow> Some (None, s5)
            | Some (Some rhs1, s5) \<Rightarrow>
                parseBinOpRHS n expr_prec (BinaryExprAST (char_of (cur_tok s1)) lhs rhs1) s5)
         else parseBinOpRHS n expr_prec (BinaryExprAST (char_of (cur_tok s1)) lhs rhs) s4))"
proof (intro conjI allI impI)
  show "fst (getTokPrecedence ((main_primed ''1+2*3'')\<lparr>cur_tok := 43\<rparr>)) = 20"
    by code_simp
  show "fst (getTokPrecedence ((main_primed ''1+2*3'')\<lparr>cur_tok := 42\<rparr>)) = 40"
    by code_simp
  show "map_option fst (parseExpression (7 + k) (main_primed ''1+2*3'')) =
     Some (Some (BinaryExprAST CHR ''+'' (NumberExprAST 1)
                  (BinaryExprAST CHR ''*'' (NumberExprAST 2) (NumberExprAST 3))))"
    by (rule map_option_fst_budget [where f = "\<lambda>n. parseExpression n (main_primed ''1+2*3'')"])
       (simp_all only: parseExpression_budget parse_1_2_3_mul)
qed (elim conjE, rule parseBinOpRHS_continue)

text \<open>The mechanism at the \<^verbatim>\<open>+\<close> of \<^verbatim>\<open>1+2*3\<close>: 20 for \<^verbatim>\<open>+\<close>, then 40 for \<^verbatim>\<open>*\<close>.\<close>

theorem parseExpression_precedence_witness:
  "let s = snd (the (parsePrimary 1 (main_primed ''1+2*3'')));
       s1 = snd (getTokPrecedence s);
       s3 = snd (the (parsePrimary 1 (getNextToken s1)));
       s4 = snd (getTokPrecedence s3)
   in getTokPrecedence s = (20, s1) \<and>
      parsePrimary 1 (getNextToken s1) = Some (Some (NumberExprAST 2), s3) \<and>
      getTokPrecedence s3 = (40, s4) \<and>
      parseBinOpRHS (Suc 1) 0 (NumberExprAST 1) s =
        (case parseBinOpRHS 1 (20 + 1) (NumberExprAST 2) s4 of
           None \<Rightarrow> None
         | Some (None, s5) \<Rightarrow> Some (None, s5)
         | Some (Some rhs1, s5) \<Rightarrow>
             parseBinOpRHS 1 0 (BinaryExprAST CHR ''+'' (NumberExprAST 1) rhs1) s5)"
proof -
  define s where "s = snd (the (parsePrimary 1 (main_primed ''1+2*3'')))"
  define s1 where "s1 = snd (getTokPrecedence s)"
  define s3 where "s3 = snd (the (parsePrimary 1 (getNextToken s1)))"
  define s4 where "s4 = snd (getTokPrecedence s3)"
  have "fst (getTokPrecedence s) = 20"
    unfolding s_def by code_simp
  then have a: "getTokPrecedence s = (20, s1)"
    by (simp add: s1_def prod_eq_iff)
  have "map_option fst (parsePrimary 1 (getNextToken s1)) = Some (Some (NumberExprAST 2))"
    unfolding s1_def s_def by code_simp
  then have b: "parsePrimary 1 (getNextToken s1) = Some (Some (NumberExprAST 2), s3)"
    unfolding s3_def by (cases "parsePrimary 1 (getNextToken s1)") (auto simp del: parsePrimary.simps)
  have "fst (getTokPrecedence s3) = 40"
    unfolding s3_def s1_def s_def by code_simp
  then have c: "getTokPrecedence s3 = (40, s4)"
    by (simp add: s4_def prod_eq_iff)
  have d: "char_of (cur_tok s1) = CHR ''+''"
    unfolding s1_def s_def by code_simp
  have e: "\<not> (20::int) < 0"
    by simp
  from parseExpression_precedence [THEN conjunct2, THEN conjunct2, THEN conjunct2, rule_format,
      OF conjI [OF a conjI [OF e conjI [OF b c]]]]
  have "parseBinOpRHS (Suc 1) 0 (NumberExprAST 1) s =
        (case parseBinOpRHS 1 (20 + 1) (NumberExprAST 2) s4 of
           None \<Rightarrow> None
         | Some (None, s5) \<Rightarrow> Some (None, s5)
         | Some (Some rhs1, s5) \<Rightarrow>
             parseBinOpRHS 1 0 (BinaryExprAST CHR ''+'' (NumberExprAST 1) rhs1) s5)"
    unfolding d by (simp del: parseBinOpRHS.simps)
  with a b c show ?thesis
    unfolding Let_def s_def [symmetric] s1_def [symmetric] s3_def [symmetric] s4_def [symmetric]
    by (simp del: parseBinOpRHS.simps parsePrimary.simps)
qed

lemma parse_1_2_3_sub: "map_option fst (parseExpression 7 (main_primed ''1-2-3'')) =
       Some (Some (BinaryExprAST CHR ''-''
                    (BinaryExprAST CHR ''-'' (NumberExprAST 1) (NumberExprAST 2))
                    (NumberExprAST 3)))"
  by code_simp

text \<open>
  C2. For the input \<^verbatim>\<open>1-2-3\<close> \<open>parseExpression\<close> returns
  \<open>BinaryExpr('-', BinaryExpr('-', 1, 2), 3)\<close>, with every budget from 7 on. The mechanism:
  when the token after the right-hand primary has a precedence that is not strictly
  greater than that of the operator just consumed (equal, in particular),
  \<open>parseBinOpRHS\<close> combines the two operands at once and goes on with the combined node
  as the left operand, at the same minimal precedence.
\<close>

theorem parseExpression_left_assoc:
  "map_option fst (parseExpression (7 + k) (main_primed ''1-2-3'')) =
     Some (Some (BinaryExprAST CHR ''-''
                  (BinaryExprAST CHR ''-'' (NumberExprAST 1) (NumberExprAST 2))
                  (NumberExprAST 3))) \<and>
   (\<forall>n expr_prec lhs s tok_prec s1 rhs s3 next_prec s4.
      getTokPrecedence s = (tok_prec, s1) \<and> \<not> tok_prec < expr_prec \<and>
      parsePrimary n (getNextToken s1) = Some (Some rhs, s3) \<and>
      getTokPrecedence s3 = (next_prec, s4) \<and> next_prec \<le> tok_prec \<longrightarrow>
      parseBinOpRHS (Suc n) expr_prec lhs s =
        parseBinOpRHS n expr_prec (BinaryExprAST (char_of (cur_tok s1)) lhs rhs) s4)"
proof (intro conjI allI impI)
  show "map_option fst (parseExpression (7 + k) (main_primed ''1-2-3'')) =
     Some (Some (BinaryExprAST CHR ''-''
                  (BinaryExprAST CHR ''-'' (NumberExprAST 1) (NumberExprAST 2))
                  (NumberExprAST 3)))"
    by (rule map_option_fst_budget [where f = "\<lambda>n. parseExpression n (main_primed ''1-2-3'')"])
       (simp_all only: parseExpression_budget parse_1_2_3_sub)
next
  fix n expr_prec lhs s tok_prec s1 rhs s3 next_prec s4
  assume h: "getTokPrecedence s = (tok_prec, s1) \<and> \<not> tok_prec < expr_prec \<and>
      parsePrimary n (getNextToken s1) = Some (Some rhs, s3) \<and>
      getTokPrecedence s3 = (next_prec, s4) \<and> next_prec \<le> tok_prec"
  then have "\<not> tok_prec < next_prec"
    by simp
  with h parseBinOpRHS_continue [of s tok_prec s1 expr_prec n rhs s3 next_prec s4 lhs]
  show "parseBinOpRHS (Suc n) expr_prec lhs s =
        parseBinOpRHS n expr_prec (BinaryExprAST (char_of (cur_tok s1)) lhs rhs) s4"
    by (simp del: parseBinOpRHS.simps parsePrimary.simps)
qed

text \<open>The mechanism at the first \<^verbatim>\<open>-\<close> of \<^verbatim>\<open>1-2-3\<close>: 20 for it, and 20 for the second.\<close>

theorem parseExpression_left_assoc_witness:
  "let s = snd (the (parsePrimary 1 (main_primed ''1-2-3'')));
       s1 = snd (getTokPrecedence s);
       s3 = snd (the (parsePrimary 1 (getNextToken s1)));
       s4 = snd (getTokPrecedence s3)
   in getTokPrecedence s = (20, s1) \<and>
      parsePrimary 1 (getNextToken s1) = Some (Some (NumberExprAST 2), s3) \<and>
      getTokPrecedence s3 = (20, s4) \<and>
      parseBinOpRHS (Suc 1) 0 (NumberExprAST 1) s =
        parseBinOpRHS 1 0 (BinaryExprAST CHR ''-'' (NumberExprAST 1) (NumberExprAST 2)) s4"
proof -
  define s where "s = snd (the (parsePrimary 1 (main_primed ''1-2-3'')))"
  define s1 where "s1 = snd (getTokPrecedence s)"
  define s3 where "s3 = snd (the (parsePrimary 1 (getNextToken s1)))"
  define s4 where "s4 = snd (getTokPrecedence s3)"
  have "fst (getTokPrecedence s) = 20"
    unfolding s_def by code_simp
  then have a: "getTokPrecedence s = (20, s1)"
    by (simp add: s1_def prod_eq_iff)
  have "map_option fst (parsePrimary 1 (getNextToken s1)) = Some (Some (NumberExprAST 2))"
    unfolding s1_def s_def by code_simp
  then have b: "parsePrimary 1 (getNextToken s1) = Some (Some (NumberExprAST 2), s3)"
    unfolding s3_def by (cases "parsePrimary 1 (getNextToken s1)") (auto simp del: parsePrimary.simps)
  have "fst (getTokPrecedence s3) = 20"
    unfolding s3_def s1_def s_def by code_simp
  then have c: "getTokPrecedence s3 = (20, s4)"
    by (simp add: s4_def prod_eq_iff)
  have d: "char_of (cur_tok s1) = CHR ''-''"
    unfolding s1_def s_def by code_simp
  have e: "\<not> (20::int) < 0" and f: "(20::int) \<le> 20"
    by simp_all
  from parseExpression_left_assoc [THEN conjunct2, rule_format,
      OF conjI [OF a conjI [OF e conjI [OF b conjI [OF c f]]]]]
  have "parseBinOpRHS (Suc 1) 0 (NumberExprAST 1) s =
        parseBinOpRHS 1 0 (BinaryExprAST CHR ''-'' (NumberExprAST 1) (NumberExprAST 2)) s4"
    unfolding d by (simp del: parseBinOpRHS.simps)
  with a b c show ?thesis
    unfolding Let_def s_def [symmetric] s1_def [symmetric] s3_def [symmetric] s4_def [symmetric]
    by (simp del: parseBinOpRHS.simps parsePrimary.simps)
qed

section \<open>Primary expressions\<close>

lemma parse_paren_mul: "map_option fst (parseExpression 9 (main_primed ''(1+2)*3'')) =
       Some (Some (BinaryExprAST CHR ''*''
                    (BinaryExprAST CHR ''+'' (NumberExprAST 1) (NumberExprAST 2))
                    (NumberExprAST 3)))"
  by code_simp

lemma parse_paren_open: "map_option fst (parseExpression 9 (main_primed ''(1+2*3'')) = Some None"
  by code_simp

text \<open>
  C3. \<open>parseParenExpr\<close> consumes the \<^verbatim>\<open>(\<close>, parses the inner expression and, when the
  current token then is \<^verbatim>\<open>)\<close> (41), consumes it and returns the inner tree itself;
  when it is not, the result is \<^verbatim>\<open>nullptr\<close> with the message \<^verbatim>\<open>expected ')'\<close>; a failure
  of the inner expression is passed on. So \<^verbatim>\<open>(1+2)*3\<close> parses to
  \<open>BinaryExpr('*', BinaryExpr('+', 1, 2), 3)\<close>, and \<^verbatim>\<open>(1+2*3\<close> without its \<^verbatim>\<open>)\<close> gives no
  node.
\<close>

theorem parseParenExpr_inner_tree:
  "(\<forall>n s v s2. parseExpression n (getNextToken s) = Some (Some v, s2) \<longrightarrow>
      parseParenExpr (Suc n) s =
        (if cur_tok s2 = 41 then Some (Some v, getNextToken s2)
         else Some (None, fprintf_stderr (''Error: expected '' @ [CHR 0x27, CHR 0x29, CHR 0x27]) s2))) \<and>
   (\<forall>n s s2. parseExpression n (getNextToken s) = Some (None, s2) \<longrightarrow>
      parseParenExpr (Suc n) s = Some (None, s2)) \<and>
   map_option fst (parseExpression (9 + k) (main_primed ''(1+2)*3'')) =
     Some (Some (BinaryExprAST CHR ''*''
                  (BinaryExprAST CHR ''+'' (NumberExprAST 1) (NumberExprAST 2))
                  (NumberExprAST 3))) \<and>
   map_option fst (parseExpression (9 + k) (main_primed ''(1+2*3'')) = Some None"
proof (intro conjI allI impI)
  show "map_option fst (parseExpression (9 + k) (main_primed ''(1+2)*3'')) =
     Some (Some (BinaryExprAST CHR ''*''
                  (BinaryExprAST CHR ''+'' (NumberExprAST 1) (NumberExprAST 2))
                  (NumberExprAST 3)))"
    by (rule map_option_fst_budget [where f = "\<lambda>n. parseExpression n (main_primed ''(1+2)*3'')"])
       (simp_all only: parseExpression_budget parse_paren_mul)
  show "map_option fst (parseExpression (9 + k) (main_primed ''(1+2*3'')) = Some None"
    by (rule map_option_fst_budget [where f = "\<lambda>n. parseExpression n (main_primed ''(1+2*3'')"])
       (simp_all only: parseExpression_budget parse_paren_open)
qed (simp_all add: Let_def logError_def del: parseExpression.simps)

text \<open>The inner tree of \<^verbatim>\<open>(7)\<close> is returned as it is, and the \<^verbatim>\<open>)\<close> is consumed.\<close>

theorem parseParenExpr_inner_tree_witness:
  "let s = main_primed ''(7)'';
       s2 = snd (the (parseExpression 3 (getNextToken s)))
   in parseExpression 3 (getNextToken s) = Some (Some (NumberExprAST 7), s2) \<and>
      cur_tok s2 = 41 \<and>
      parseParenExpr (Suc 3) s = Some (Some (NumberExprAST 7), getNextToken s2)"
proof -
  define s where "s = main_primed ''(7)''"
  define s2 where "s2 = snd (the (parseExpression 3 (getNextToken s)))"
  have "map_option fst (parseExpression 3 (getNextToken s)) = Some (Some (NumberExprAST 7))"
    unfolding s_def by code_simp
  then have a: "parseExpression 3 (getNextToken s) = Some (Some (NumberExprAST 7), s2)"
    unfolding s2_def by (cases "parseExpression 3 (getNextToken s)") (auto simp del: parseExpression.simps)
  have b: "cur_tok s2 = 41"
    unfolding s2_def s_def by code_simp
  from parseParenExpr_inner_tree [THEN conjunct1, rule_format, OF a]
  have "parseParenExpr (Suc 3) s = Some (Some (NumberExprAST 7), getNextToken s2)"
    using b by (simp del: parseParenExpr.simps)
  with a b show ?thesis
    unfolding Let_def s_def [symmetric] s2_def [symmetric]
    by (simp del: parseParenExpr.simps parseExpression.simps)
qed

lemma parse_call_two: "map_option fst (parseIdentifierExpr 9 (main_primed ''foo(1, x)'')) =
       Some (Some (CallExprAST ''foo'' [NumberExprAST 1, VariableExprAST ''x'']))"
  by code_simp

lemma parse_call_none: "map_option fst (parseIdentifierExpr 9 (main_primed ''foo()'')) =
       Some (Some (CallExprAST ''foo'' []))"
  by code_simp

lemma parse_call_no_comma: "map_option fst (parseIdentifierExpr 9 (main_primed ''foo(1 x)'')) = Some None"
  by code_simp

text \<open>
  C4. \<open>parseIdentifierExpr\<close> takes the name from \<open>identifier_str\<close> and consumes the
  identifier. When the next token is not \<^verbatim>\<open>(\<close> (40) the result is the variable reference.
  Otherwise the \<^verbatim>\<open>(\<close> is consumed; a \<^verbatim>\<open>)\<close> (41) right after it gives the call with no
  arguments; else the argument loop runs, and its arguments become those of the call.
  The loop appends each parsed argument at the end; after an argument a \<^verbatim>\<open>)\<close> ends the
  list, a comma (44) is consumed and the loop goes on, and any other token is the
  failure \<^verbatim>\<open>Expected ')' or ',' in argument list\<close>; a failing argument fails the call.
  So \<^verbatim>\<open>foo(1, x)\<close> gives \<open>Call foo [1, x]\<close>, \<^verbatim>\<open>foo()\<close> gives \<open>Call foo []\<close>, and
  \<^verbatim>\<open>foo(1 x)\<close> gives no node.
\<close>

theorem parseIdentifierExpr_variable_or_call:
  "(\<forall>n s. cur_tok (getNextToken s) \<noteq> 40 \<longrightarrow>
      parseIdentifierExpr (Suc n) s = Some (Some (VariableExprAST (identifier_str s)), getNextToken s)) \<and>
   (\<forall>n s. cur_tok (getNextToken s) = 40 \<and> cur_tok (getNextToken (getNextToken s)) = 41 \<longrightarrow>
      parseIdentifierExpr (Suc n) s =
        Some (Some (CallExprAST (identifier_str s) []), getNextToken (getNextToken (getNextToken s)))) \<and>
   (\<forall>n s. cur_tok (getNextToken s) = 40 \<and> cur_tok (getNextToken (getNextToken s)) \<noteq> 41 \<longrightarrow>
      parseIdentifierExpr (Suc n) s =
        (case parseArgs n [] (getNextToken (getNextToken s)) of
           None \<Rightarrow> None
         | Some (None, s3) \<Rightarrow> Some (None, s3)
         | Some (Some args, s3) \<Rightarrow> Some (Some (CallExprAST (identifier_str s) args), getNextToken s3))) \<and>
   (\<forall>n args s arg s1. parseExpression n s = Some (Some arg, s1) \<longrightarrow>
      parseArgs (Suc n) args s =
        (if cur_tok s1 = 41 then Some (Some (args @ [arg]), s1)
         else if cur_tok s1 = 44 then parseArgs n (args @ [arg]) (getNextToken s1)
         else Some (None, fprintf_stderr
                (''Error: Expected '' @ [CHR 0x27, CHR 0x29, CHR 0x27] @ '' or ''
                   @ [CHR 0x27, CHR 0x2C, CHR 0x27] @ '' in argument list'') s1))) \<and>
   (\<forall>n args s s1. parseExpression n s = Some (None, s1) \<longrightarrow>
      parseArgs (Suc n) args s = Some (None, s1)) \<and>
   map_option fst (parseIdentifierExpr (9 + k) (main_primed ''foo(1, x)'')) =
     Some (Some (CallExprAST ''foo'' [NumberExprAST 1, VariableExprAST ''x''])) \<and>
   map_option fst (parseIdentifierExpr (9 + k) (main_primed ''foo()'')) =
     Some (Some (CallExprAST ''foo'' [])) \<and>
   map_option fst (parseIdentifierExpr (9 + k) (main_primed ''foo(1 x)'')) = Some None"
proof (intro conjI allI impI)
  show "map_option fst (parseIdentifierExpr (9 + k) (main_primed ''foo(1, x)'')) =
     Some (Some (CallExprAST ''foo'' [NumberExprAST 1, VariableExprAST ''x'']))"
    by (rule map_option_fst_budget [where f = "\<lambda>n. parseIdentifierExpr n (main_primed ''foo(1, x)'')"])
       (simp_all only: parseIdentifierExpr_budget parse_call_two)
  show "map_option fst (parseIdentifierExpr (9 + k) (main_primed ''foo()'')) =
     Some (Some (CallExprAST ''foo'' []))"
    by (rule map_option_fst_budget [where f = "\<lambda>n. parseIdentifierExpr n (main_primed ''foo()'')"])
       (simp_all only: parseIdentifierExpr_budget parse_call_none)
  show "map_option fst (parseIdentifierExpr (9 + k) (main_primed ''foo(1 x)'')) = Some None"
    by (rule map_option_fst_budget [where f = "\<lambda>n. parseIdentifierExpr n (main_primed ''foo(1 x)'')"])
       (simp_all only: parseIdentifierExpr_budget parse_call_no_comma)
qed (simp_all add: Let_def logError_def)

text \<open>
  On \<^verbatim>\<open>f(7)\<close>: the token after the identifier is \<^verbatim>\<open>(\<close> and the one after that is not
  \<^verbatim>\<open>)\<close>; the loop parses \<^verbatim>\<open>7\<close>, finds \<^verbatim>\<open>)\<close> and ends with the one argument.
  On \<^verbatim>\<open>x+1\<close>: the token after the identifier is \<^verbatim>\<open>+\<close>, so \<open>x\<close> is a variable.
\<close>

theorem parseIdentifierExpr_variable_or_call_witness:
  "let s = main_primed ''f(7)'';
       s2 = getNextToken (getNextToken s);
       s3 = snd (the (parseExpression 3 s2));
       t = main_primed ''x+1''
   in cur_tok (getNextToken s) = 40 \<and> cur_tok s2 \<noteq> 41 \<and>
      parseExpression 3 s2 = Some (Some (NumberExprAST 7), s3) \<and> cur_tok s3 = 41 \<and>
      parseArgs (Suc 3) [] s2 = Some (Some [NumberExprAST 7], s3) \<and>
      parseIdentifierExpr (Suc 4) s = Some (Some (CallExprAST ''f'' [NumberExprAST 7]), getNextToken s3) \<and>
      cur_tok (getNextToken t) \<noteq> 40 \<and>
      parseIdentifierExpr (Suc 0) t = Some (Some (VariableExprAST ''x''), getNextToken t)"
proof -
  define s where "s = main_primed ''f(7)''"
  define s2 where "s2 = getNextToken (getNextToken s)"
  define s3 where "s3 = snd (the (parseExpression 3 s2))"
  define t where "t = main_primed ''x+1''"
  note th = parseIdentifierExpr_variable_or_call [where k = 0]
  have a: "cur_tok (getNextToken s) = 40"
    unfolding s_def by code_simp
  have b: "cur_tok s2 \<noteq> 41"
    unfolding s2_def s_def by code_simp
  have "map_option fst (parseExpression 3 s2) = Some (Some (NumberExprAST 7))"
    unfolding s2_def s_def by code_simp
  then have c: "parseExpression 3 s2 = Some (Some (NumberExprAST 7), s3)"
    unfolding s3_def by (cases "parseExpression 3 s2") (auto simp del: parseExpression.simps)
  have d: "cur_tok s3 = 41"
    unfolding s3_def s2_def s_def by code_simp
  have e: "identifier_str s = ''f''"
    unfolding s_def by code_simp
  have f: "cur_tok (getNextToken t) \<noteq> 40"
    unfolding t_def by code_simp
  have g: "identifier_str t = ''x''"
    unfolding t_def by code_simp
  from th [THEN conjunct2, THEN conjunct2, THEN conjunct2, THEN conjunct1, rule_format, OF c, of "[]"]
  have args: "parseArgs (Suc 3) [] s2 = Some (Some [NumberExprAST 7], s3)"
    using d by (simp del: parseArgs.simps)
  then have args4: "parseArgs 4 [] s2 = Some (Some [NumberExprAST 7], s3)"
    by (simp del: parseArgs.simps add: eval_nat_numeral)
  from th [THEN conjunct2, THEN conjunct2, THEN conjunct1, rule_format, of s 4] a b
  have call: "parseIdentifierExpr (Suc 4) s = Some (Some (CallExprAST ''f'' [NumberExprAST 7]), getNextToken s3)"
    unfolding s2_def [symmetric] by (simp add: args4 e del: parseIdentifierExpr.simps parseArgs.simps)
  from th [THEN conjunct1, rule_format, OF f, of 0]
  have var: "parseIdentifierExpr (Suc 0) t = Some (Some (VariableExprAST ''x''), getNextToken t)"
    by (simp add: g del: parseIdentifierExpr.simps)
  from a b c d args call f var show ?thesis
    unfolding Let_def s_def [symmetric] t_def [symmetric] s2_def [symmetric] s3_def [symmetric]
    by (simp del: parseIdentifierExpr.simps parseArgs.simps parseExpression.simps)
qed

section \<open>What a parse can do to the state\<close>

lemma reaches_refl: "reaches s s"
  by (simp add: reaches_def)

lemma reaches_trans: "reaches s t \<Longrightarrow> reaches t u \<Longrightarrow> reaches s u"
  by (simp add: reaches_def)

lemma reaches_getNextToken: "reaches s t \<Longrightarrow> reaches s (getNextToken t)"
  unfolding reaches_def
  by (rule rtranclp.rtrancl_into_rtrancl [where b = t]) (simp_all add: primitive_step_def)

lemma reaches_getTokPrecedence: "getTokPrecedence t = (p, u) \<Longrightarrow> reaches s t \<Longrightarrow> reaches s u"
  unfolding reaches_def
  by (rule rtranclp.rtrancl_into_rtrancl [where b = t]) (auto simp: primitive_step_def)

lemma reaches_fprintf_stderr: "reaches s t \<Longrightarrow> reaches s (fprintf_stderr msg t)"
  unfolding reaches_def
  by (rule rtranclp.rtrancl_into_rtrancl [where b = t]) (auto simp: primitive_step_def)

lemmas reaches_intros = reaches_refl reaches_getNextToken reaches_getTokPrecedence
  reaches_fprintf_stderr

lemma reaches_step_Suc:
  assumes "reaches_step n"
  shows "reaches_step (Suc n)"
proof -
  have P0: "\<And>r t u. parsePrimary n t = Some (r, u) \<Longrightarrow> reaches t u"
   and Pa0: "\<And>r t u. parseParenExpr n t = Some (r, u) \<Longrightarrow> reaches t u"
   and I0: "\<And>r t u. parseIdentifierExpr n t = Some (r, u) \<Longrightarrow> reaches t u"
   and A0: "\<And>a r t u. parseArgs n a t = Some (r, u) \<Longrightarrow> reaches t u"
   and R0: "\<And>p l r t u. parseBinOpRHS n p l t = Some (r, u) \<Longrightarrow> reaches t u"
   and E0: "\<And>r t u. parseExpression n t = Some (r, u) \<Longrightarrow> reaches t u"
    using assms unfolding reaches_step_def by auto
  have P: "\<And>s r t u. parsePrimary n t = Some (r, u) \<Longrightarrow> reaches s t \<Longrightarrow> reaches s u"
    using P0 reaches_trans by blast
  have Pa: "\<And>s r t u. parseParenExpr n t = Some (r, u) \<Longrightarrow> reaches s t \<Longrightarrow> reaches s u"
    using Pa0 reaches_trans by blast
  have I: "\<And>s r t u. parseIdentifierExpr n t = Some (r, u) \<Longrightarrow> reaches s t \<Longrightarrow> reaches s u"
    using I0 reaches_trans by blast
  have A: "\<And>a s r t u. parseArgs n a t = Some (r, u) \<Longrightarrow> reaches s t \<Longrightarrow> reaches s u"
    using A0 reaches_trans by blast
  have R: "\<And>p l s r t u. parseBinOpRHS n p l t = Some (r, u) \<Longrightarrow> reaches s t \<Longrightarrow> reaches s u"
    using R0 reaches_trans by blast
  have E: "\<And>s r t u. parseExpression n t = Some (r, u) \<Longrightarrow> reaches s t \<Longrightarrow> reaches s u"
    using E0 reaches_trans by blast
  note [simp del] = parsePrimary.simps parseParenExpr.simps parseIdentifierExpr.simps
    parseArgs.simps parseBinOpRHS.simps parseExpression.simps
  have 1: "reaches s t" if "parsePrimary (Suc n) s = Some (r, t)" for s r t
    using that
    by (subst (asm) parsePrimary.simps(2))
       (fastforce simp: parseNumberExpr_def logError_def Let_def split: if_splits
             intro: I Pa reaches_intros)
  have 2: "reaches s t" if "parseParenExpr (Suc n) s = Some (r, t)" for s r t
    using that
    by (subst (asm) parseParenExpr.simps(2))
       (fastforce simp: logError_def Let_def split: option.splits prod.splits if_splits
             intro: E reaches_intros)
  have 3: "reaches s t" if "parseIdentifierExpr (Suc n) s = Some (r, t)" for s r t
    using that
    by (subst (asm) parseIdentifierExpr.simps(2))
       (fastforce simp: logError_def Let_def split: option.splits prod.splits if_splits
             intro: A reaches_intros)
  have 4: "reaches s t" if "parseArgs (Suc n) a s = Some (r, t)" for a s r t
    using that
    by (subst (asm) parseArgs.simps(2))
       (fastforce simp: logError_def Let_def split: option.splits prod.splits if_splits
             intro: A E reaches_intros)
  have 5: "reaches s t" if "parseBinOpRHS (Suc n) p l s = Some (r, t)" for p l s r t
    using that
    by (subst (asm) parseBinOpRHS.simps(2))
       (fastforce simp: logError_def Let_def split: option.splits prod.splits if_splits
             intro: P R reaches_intros)
  have 6: "reaches s t" if "parseExpression (Suc n) s = Some (r, t)" for s r t
    using that
    by (subst (asm) parseExpression.simps(2))
       (fastforce simp: logError_def Let_def split: option.splits prod.splits if_splits
             intro: P R reaches_intros)
  show ?thesis
    unfolding reaches_step_def using 1 2 3 4 5 6 by blast
qed

lemma reaches_step_all: "reaches_step n"
  by (induction n) (simp_all add: reaches_step_def [of 0] reaches_step_Suc)


lemma parsePrimary_reaches: "parsePrimary n s = Some (r, t) \<Longrightarrow> reaches s t"
  using reaches_step_all [of n] unfolding reaches_step_def by auto

lemma parseParenExpr_reaches: "parseParenExpr n s = Some (r, t) \<Longrightarrow> reaches s t"
  using reaches_step_all [of n] unfolding reaches_step_def by auto

lemma parseIdentifierExpr_reaches: "parseIdentifierExpr n s = Some (r, t) \<Longrightarrow> reaches s t"
  using reaches_step_all [of n] unfolding reaches_step_def by auto

lemma parseArgs_reaches: "parseArgs n a s = Some (r, t) \<Longrightarrow> reaches s t"
  using reaches_step_all [of n] unfolding reaches_step_def by auto

lemma parseBinOpRHS_reaches: "parseBinOpRHS n p l s = Some (r, t) \<Longrightarrow> reaches s t"
  using reaches_step_all [of n] unfolding reaches_step_def by auto

lemma parseExpression_reaches: "parseExpression n s = Some (r, t) \<Longrightarrow> reaches s t"
  using reaches_step_all [of n] unfolding reaches_step_def by auto

lemma parseExpression_reaches2:
  "parseExpression n t = Some (r, u) \<Longrightarrow> reaches s t \<Longrightarrow> reaches s u"
  by (blast intro: reaches_trans parseExpression_reaches)

lemma parsePrototype_names_reaches2:
  "parsePrototype_names n a t = Some (r, u) \<Longrightarrow> reaches s t \<Longrightarrow> reaches s u"
proof (induction n arbitrary: a t)
  case 0
  then show ?case by simp
next
  case (Suc n)
  show ?case
  proof (cases "cur_tok (getNextToken t) = tok_identifier")
    case True
    with Suc.prems have "parsePrototype_names n (a @ [identifier_str (getNextToken t)]) (getNextToken t) = Some (r, u)"
      by (simp add: Let_def)
    from Suc.IH [OF this reaches_getNextToken [OF Suc.prems(2)]] show ?thesis .
  next
    case False
    with Suc.prems show ?thesis
      by (auto simp: Let_def intro: reaches_intros)
  qed
qed

lemma parsePrototype_reaches2:
  "parsePrototype n t = Some (r, u) \<Longrightarrow> reaches s t \<Longrightarrow> reaches s u"
  unfolding parsePrototype_def logErrorP_def logError_def Let_def
  by (fastforce split: if_splits option.splits prod.splits
        intro: reaches_intros parsePrototype_names_reaches2)

lemma parseDefinition_reaches2:
  "parseDefinition n t = Some (r, u) \<Longrightarrow> reaches s t \<Longrightarrow> reaches s u"
  unfolding parseDefinition_def Let_def
  by (fastforce split: if_splits option.splits prod.splits
        intro: reaches_intros parsePrototype_reaches2 parseExpression_reaches2)

lemma parseTopLevelExpr_reaches2:
  "parseTopLevelExpr n t = Some (r, u) \<Longrightarrow> reaches s t \<Longrightarrow> reaches s u"
  unfolding parseTopLevelExpr_def Let_def
  by (fastforce split: if_splits option.splits prod.splits
        intro: reaches_intros parseExpression_reaches2)

lemma parseExtern_reaches2:
  "parseExtern n t = Some (r, u) \<Longrightarrow> reaches s t \<Longrightarrow> reaches s u"
  unfolding parseExtern_def
  by (fastforce intro: reaches_intros parsePrototype_reaches2)

lemma handleDefinition_reaches2:
  "handleDefinition n t = Some u \<Longrightarrow> reaches s t \<Longrightarrow> reaches s u"
  unfolding handleDefinition_def
  by (fastforce split: if_splits option.splits prod.splits
        intro: reaches_intros parseDefinition_reaches2)

lemma handleExtern_reaches2:
  "handleExtern n t = Some u \<Longrightarrow> reaches s t \<Longrightarrow> reaches s u"
  unfolding handleExtern_def
  by (fastforce split: if_splits option.splits prod.splits
        intro: reaches_intros parseExtern_reaches2)

lemma handleTopLevelExpression_reaches2:
  "handleTopLevelExpression n t = Some u \<Longrightarrow> reaches s t \<Longrightarrow> reaches s u"
  unfolding handleTopLevelExpression_def
  by (fastforce split: if_splits option.splits prod.splits
        intro: reaches_intros parseTopLevelExpr_reaches2)

lemma dispatch_reaches: "dispatch n s = Some t \<Longrightarrow> reaches s t"
  unfolding dispatch_def
  by (auto split: if_splits
        intro: reaches_intros handleDefinition_reaches2 handleExtern_reaches2
               handleTopLevelExpression_reaches2)

lemma mainLoop_reaches: "mainLoop n s = Some t \<Longrightarrow> reaches s t"
proof (induction n arbitrary: s)
  case 0
  then show ?case by simp
next
  case (Suc n)
  let ?s0 = "fprintf_stderr ''ready> '' s"
  have r0: "reaches s ?s0"
    by (rule reaches_fprintf_stderr [OF reaches_refl])
  show ?case
  proof (cases "cur_tok ?s0 = tok_eof")
    case True
    with Suc.prems r0 show ?thesis
      by (simp add: Let_def)
  next
    case False
    with Suc.prems obtain s1 where d: "dispatch n ?s0 = Some s1" and m: "mainLoop n s1 = Some t"
      by (auto simp: Let_def split: option.splits)
    from r0 dispatch_reaches [OF d] Suc.IH [OF m] show ?thesis
      by (blast intro: reaches_trans)
  qed
qed

lemma table_extends_refl: "table_extends m m"
  by (simp add: table_extends_def)

lemma table_extends_trans:
  "table_extends m1 m2 \<Longrightarrow> table_extends m2 m3 \<Longrightarrow> table_extends m1 m3"
  unfolding table_extends_def by metis

lemma getTokPrecedence_state:
  "snd (getTokPrecedence s) =
     (if isascii (cur_tok s)
      then s\<lparr>BinopPrecedence :=
              (case BinopPrecedence s (char_of (cur_tok s)) of
                 None \<Rightarrow> (BinopPrecedence s)(char_of (cur_tok s) \<mapsto> 0)
               | Some v \<Rightarrow> BinopPrecedence s)\<rparr>
      else s)"
  by (simp add: getTokPrecedence_def map_subscript_def Let_def split: option.splits)

lemma getTokPrecedence_value:
  "fst (getTokPrecedence s) =
     (if isascii (cur_tok s)
      then (case BinopPrecedence s (char_of (cur_tok s)) of
              None \<Rightarrow> - 1
            | Some v \<Rightarrow> if v \<le> 0 then - 1 else v)
      else - 1)"
  by (simp add: getTokPrecedence_def map_subscript_def Let_def split: option.splits)

lemma getTokPrecedence_frame [simp]:
  "cur_tok (snd (getTokPrecedence s)) = cur_tok s"
  "last_char (snd (getTokPrecedence s)) = last_char s"
  "stdin (snd (getTokPrecedence s)) = stdin s"
  "stderr (snd (getTokPrecedence s)) = stderr s"
  by (simp_all add: getTokPrecedence_state)

lemma getTokPrecedence_table:
  "table_extends (BinopPrecedence s) (BinopPrecedence (snd (getTokPrecedence s)))"
  by (simp add: getTokPrecedence_state table_extends_def split: option.splits)

lemma fprintf_stderr_frame [simp]:
  "cur_tok (fprintf_stderr msg s) = cur_tok s"
  "last_char (fprintf_stderr msg s) = last_char s"
  "stdin (fprintf_stderr msg s) = stdin s"
  "BinopPrecedence (fprintf_stderr msg s) = BinopPrecedence s"
  by (simp_all add: fprintf_stderr_def)

lemma primitive_step_table:
  "primitive_step s t \<Longrightarrow> table_extends (BinopPrecedence s) (BinopPrecedence t)"
  unfolding primitive_step_def
  by (auto simp: table_extends_refl getTokPrecedence_table)

lemma reaches_table: "reaches s t \<Longrightarrow> table_extends (BinopPrecedence s) (BinopPrecedence t)"
  unfolding reaches_def
  by (induction rule: rtranclp_induct)
     (auto intro: table_extends_refl table_extends_trans primitive_step_table)

lemma primitive_step_pending: "primitive_step s t \<Longrightarrow> pending t \<le> pending s"
  unfolding primitive_step_def
  using getNextToken_pending [of s]
  by (auto simp: pending_def lexer_pending_def)

lemma reaches_pending: "reaches s t \<Longrightarrow> pending t \<le> pending s"
  unfolding reaches_def
  by (induction rule: rtranclp_induct) (auto dest: primitive_step_pending)

lemma main_primed_table:
  "BinopPrecedence (main_primed inp) =
     [CHR ''<'' \<mapsto> 10, CHR ''+'' \<mapsto> 20, CHR ''-'' \<mapsto> 20, CHR ''*'' \<mapsto> 40]"
  by (simp add: main_primed_def install_operators_def initial_state_def)

lemma getTokPrecedence_value_extends:
  assumes "table_extends (BinopPrecedence s) m"
  shows "fst (getTokPrecedence (s\<lparr>BinopPrecedence := m\<rparr>)) = fst (getTokPrecedence s)"
proof -
  from assms have "m (char_of (cur_tok s)) = BinopPrecedence s (char_of (cur_tok s)) \<or>
      (BinopPrecedence s (char_of (cur_tok s)) = None \<and> m (char_of (cur_tok s)) = Some 0)"
    by (simp add: table_extends_def)
  then show ?thesis
    by (auto simp: getTokPrecedence_value)
qed

section \<open>The precedence table\<close>

text \<open>
  C5, as the code has it. \<open>main\<close> installs exactly the four entries. A query on a
  token that is not ASCII (a keyword, an identifier, a number, the end of input, a byte
  above 127) leaves the whole state as it is and answers -1. A query on an ASCII token
  whose character has no entry inserts that character with the value 0 (\<^verbatim>\<open>operator[]\<close>)
  and changes nothing else. So the table only ever gains entries with the value 0: over
  a query, and over a whole run of \<open>mainLoop\<close>, every entry keeps its value and every new
  entry is 0, and such a larger table answers every query as the smaller one does.
\<close>

theorem BinopPrecedence_gains_only_zero_entries:
  "BinopPrecedence (main_primed inp) =
     [CHR ''<'' \<mapsto> 10, CHR ''+'' \<mapsto> 20, CHR ''-'' \<mapsto> 20, CHR ''*'' \<mapsto> 40] \<and>
   (\<not> isascii (cur_tok s) \<longrightarrow> getTokPrecedence s = (- 1, s)) \<and>
   (isascii (cur_tok s) \<longrightarrow>
      snd (getTokPrecedence s) =
        s\<lparr>BinopPrecedence :=
            (case BinopPrecedence s (char_of (cur_tok s)) of
               None \<Rightarrow> (BinopPrecedence s)(char_of (cur_tok s) \<mapsto> 0)
             | Some v \<Rightarrow> BinopPrecedence s)\<rparr>) \<and>
   table_extends (BinopPrecedence s) (BinopPrecedence (snd (getTokPrecedence s))) \<and>
   (mainLoop n s = Some t \<longrightarrow> table_extends (BinopPrecedence s) (BinopPrecedence t)) \<and>
   (table_extends (BinopPrecedence s) m \<longrightarrow>
      fst (getTokPrecedence (s\<lparr>BinopPrecedence := m\<rparr>)) = fst (getTokPrecedence s))"
proof (intro conjI impI)
  show "BinopPrecedence (main_primed inp) =
     [CHR ''<'' \<mapsto> 10, CHR ''+'' \<mapsto> 20, CHR ''-'' \<mapsto> 20, CHR ''*'' \<mapsto> 40]"
    by (rule main_primed_table)
  show "getTokPrecedence s = (- 1, s)" if "\<not> isascii (cur_tok s)"
    using that by (simp add: getTokPrecedence_def)
  show "snd (getTokPrecedence s) =
        s\<lparr>BinopPrecedence :=
            (case BinopPrecedence s (char_of (cur_tok s)) of
               None \<Rightarrow> (BinopPrecedence s)(char_of (cur_tok s) \<mapsto> 0)
             | Some v \<Rightarrow> BinopPrecedence s)\<rparr>" if "isascii (cur_tok s)"
    using that by (simp add: getTokPrecedence_state)
  show "table_extends (BinopPrecedence s) (BinopPrecedence (snd (getTokPrecedence s)))"
    by (rule getTokPrecedence_table)
  show "table_extends (BinopPrecedence s) (BinopPrecedence t)" if "mainLoop n s = Some t"
    using that by (intro reaches_table mainLoop_reaches)
  show "fst (getTokPrecedence (s\<lparr>BinopPrecedence := m\<rparr>)) = fst (getTokPrecedence s)"
    if "table_extends (BinopPrecedence s) m"
    using that by (rule getTokPrecedence_value_extends)
qed

text \<open>
  On the input \<^verbatim>\<open>;\<close> the first token is the ASCII token 59 without an entry, and the
  loop runs to the end within the budget 9; on the empty input the first token is
  \<open>tok_eof\<close>.
\<close>

theorem BinopPrecedence_gains_only_zero_entries_witness:
  "let s = main_primed '';'';
       t = the (mainLoop 9 s);
       e = main_primed [];
       m = BinopPrecedence (snd (getTokPrecedence s))
   in isascii (cur_tok s) \<and> BinopPrecedence s CHR '';'' = None \<and>
      snd (getTokPrecedence s) = s\<lparr>BinopPrecedence := (BinopPrecedence s)(CHR '';'' \<mapsto> 0)\<rparr> \<and>
      mainLoop 9 s = Some t \<and> table_extends (BinopPrecedence s) (BinopPrecedence t) \<and>
      \<not> isascii (cur_tok e) \<and> getTokPrecedence e = (- 1, e) \<and>
      table_extends (BinopPrecedence s) m \<and>
      fst (getTokPrecedence (s\<lparr>BinopPrecedence := m\<rparr>)) = fst (getTokPrecedence s)"
proof -
  define s where "s = main_primed '';''"
  define t where "t = the (mainLoop 9 s)"
  define e where "e = main_primed []"
  define m where "m = BinopPrecedence (snd (getTokPrecedence s))"
  note th = BinopPrecedence_gains_only_zero_entries
  have a: "isascii (cur_tok s)"
    unfolding s_def by code_simp
  have b: "BinopPrecedence s CHR '';'' = None"
    unfolding s_def by code_simp
  have c: "char_of (cur_tok s) = CHR '';''"
    unfolding s_def by code_simp
  have "mainLoop 9 s \<noteq> None"
    unfolding s_def by code_simp
  then have d: "mainLoop 9 s = Some t"
    unfolding t_def by (simp del: mainLoop.simps)
  have f: "\<not> isascii (cur_tok e)"
    unfolding e_def by code_simp
  from th [THEN conjunct2, THEN conjunct2, THEN conjunct1, rule_format, OF a]
  have 1: "snd (getTokPrecedence s) = s\<lparr>BinopPrecedence := (BinopPrecedence s)(CHR '';'' \<mapsto> 0)\<rparr>"
    by (simp add: b c)
  from th [THEN conjunct2, THEN conjunct2, THEN conjunct2, THEN conjunct2, THEN conjunct1,
      rule_format, OF d]
  have 2: "table_extends (BinopPrecedence s) (BinopPrecedence t)" .
  from th [THEN conjunct2, THEN conjunct1, rule_format, OF f]
  have 3: "getTokPrecedence e = (- 1, e)" .
  from th [THEN conjunct2, THEN conjunct2, THEN conjunct2, THEN conjunct1, of s]
  have 4: "table_extends (BinopPrecedence s) m"
    unfolding m_def .
  from th [THEN conjunct2, THEN conjunct2, THEN conjunct2, THEN conjunct2, THEN conjunct2,
      rule_format, OF 4]
  have 5: "fst (getTokPrecedence (s\<lparr>BinopPrecedence := m\<rparr>)) = fst (getTokPrecedence s)" .
  from a b 1 d 2 f 3 4 5 show ?thesis
    unfolding Let_def s_def [symmetric] t_def [symmetric] e_def [symmetric] m_def [symmetric]
    by (simp del: mainLoop.simps)
qed

text \<open>
  That the set of entries never changes fails on the input \<^verbatim>\<open>1;\<close>: at the start of the loop the table has
  no entry for \<^verbatim>\<open>;\<close>, and at its end it has the entry 0, inserted by the precedence
  query that follows the number. The set of entries has changed.
\<close>

theorem BinopPrecedence_unchanged_counterexample:
  "BinopPrecedence (main_primed ''1;'') CHR '';'' = None \<and>
   map_option (\<lambda>t. BinopPrecedence t CHR '';'') (main 9 ''1;'') = Some (Some 0) \<and>
   map_option (\<lambda>t. dom (BinopPrecedence t) = dom (BinopPrecedence (main_primed ''1;'')))
     (main 9 ''1;'') = Some False"
proof -
  have a: "BinopPrecedence (main_primed ''1;'') CHR '';'' = None"
    by code_simp
  have b: "map_option (\<lambda>t. BinopPrecedence t CHR '';'') (main 9 ''1;'') = Some (Some 0)"
    by code_simp
  then obtain t where t: "main 9 ''1;'' = Some t" and "BinopPrecedence t CHR '';'' = Some 0"
    by auto
  with a have "dom (BinopPrecedence t) \<noteq> dom (BinopPrecedence (main_primed ''1;''))"
    by (metis domIff option.distinct(1))
  with a b t show ?thesis
    by simp
qed

lemma registered_only_extends:
  "registered_only m \<Longrightarrow> table_extends m m1 \<Longrightarrow> registered_only m1"
  unfolding registered_only_def table_extends_def
  by (metis less_irrefl option.inject)

lemma registered_only_reaches:
  "registered_only (BinopPrecedence s) \<Longrightarrow> reaches s t \<Longrightarrow> registered_only (BinopPrecedence t)"
  by (blast intro: registered_only_extends reaches_table)

lemma registered_only_getNextToken:
  "registered_only (BinopPrecedence s) \<Longrightarrow> registered_only (BinopPrecedence (getNextToken s))"
  by simp

lemma getTokPrecedence_registered:
  assumes "getTokPrecedence s = (tok_prec, s1)" and "registered_only (BinopPrecedence s)"
  shows "registered_only (BinopPrecedence s1)"
    and "0 \<le> tok_prec \<Longrightarrow> char_of (cur_tok s1) \<in> registered_operators"
proof -
  have s1: "s1 = snd (getTokPrecedence s)" and tp: "tok_prec = fst (getTokPrecedence s)"
    using assms(1) by simp_all
  show "registered_only (BinopPrecedence s1)"
    unfolding s1 using assms(2) getTokPrecedence_table by (rule registered_only_extends)
  show "char_of (cur_tok s1) \<in> registered_operators" if "0 \<le> tok_prec"
    using that assms(2) unfolding s1 tp registered_only_def
    by (auto simp: getTokPrecedence_value split: if_splits option.splits)
qed

lemma main_primed_registered_only: "registered_only (BinopPrecedence (main_primed inp))"
  by (simp add: main_primed_table registered_only_def registered_operators_def)

lemma ops_step_Suc:
  assumes "ops_step n"
  shows "ops_step (Suc n)"
proof -
  have P: "\<And>s e t. registered_only (BinopPrecedence s) \<Longrightarrow> parsePrimary n s = Some (Some e, t) \<Longrightarrow>
        binary_ops e \<subseteq> registered_operators"
   and Pa: "\<And>s e t. registered_only (BinopPrecedence s) \<Longrightarrow> parseParenExpr n s = Some (Some e, t) \<Longrightarrow>
        binary_ops e \<subseteq> registered_operators"
   and I: "\<And>s e t. registered_only (BinopPrecedence s) \<Longrightarrow> parseIdentifierExpr n s = Some (Some e, t) \<Longrightarrow>
        binary_ops e \<subseteq> registered_operators"
   and A: "\<And>args s es t. registered_only (BinopPrecedence s) \<Longrightarrow>
        (\<Union>a \<in> set args. binary_ops a) \<subseteq> registered_operators \<Longrightarrow>
        parseArgs n args s = Some (Some es, t) \<Longrightarrow>
        (\<Union>a \<in> set es. binary_ops a) \<subseteq> registered_operators"
   and R: "\<And>p lhs s e t. registered_only (BinopPrecedence s) \<Longrightarrow> 0 \<le> p \<Longrightarrow>
        binary_ops lhs \<subseteq> registered_operators \<Longrightarrow>
        parseBinOpRHS n p lhs s = Some (Some e, t) \<Longrightarrow>
        binary_ops e \<subseteq> registered_operators"
   and E: "\<And>s e t. registered_only (BinopPrecedence s) \<Longrightarrow> parseExpression n s = Some (Some e, t) \<Longrightarrow>
        binary_ops e \<subseteq> registered_operators"
    using assms unfolding ops_step_def by simp_all
  note [simp del] = parsePrimary.simps parseParenExpr.simps parseIdentifierExpr.simps
    parseArgs.simps parseBinOpRHS.simps parseExpression.simps
  have 1: "binary_ops e \<subseteq> registered_operators"
    if "registered_only (BinopPrecedence s)" "parsePrimary (Suc n) s = Some (Some e, t)" for s e t
    using that(2) that(1) I Pa
    by (subst (asm) parsePrimary.simps(2))
       (auto simp: parseNumberExpr_def logError_def Let_def split: if_splits)
  have 2: "binary_ops e \<subseteq> registered_operators"
    if "registered_only (BinopPrecedence s)" "parseParenExpr (Suc n) s = Some (Some e, t)" for s e t
    using that(2) that(1) E [of "getNextToken s"]
    by (subst (asm) parseParenExpr.simps(2))
       (auto simp: logError_def Let_def split: option.splits prod.splits if_splits)
  have 3: "binary_ops e \<subseteq> registered_operators"
    if "registered_only (BinopPrecedence s)" "parseIdentifierExpr (Suc n) s = Some (Some e, t)" for s e t
    using that(2) that(1) A [of "getNextToken (getNextToken s)" "[]"]
    by (subst (asm) parseIdentifierExpr.simps(2))
       (auto simp: logError_def Let_def split: option.splits prod.splits if_splits)
  have 4: "(\<Union>a \<in> set es. binary_ops a) \<subseteq> registered_operators"
    if reg: "registered_only (BinopPrecedence s)"
      and args: "(\<Union>a \<in> set args. binary_ops a) \<subseteq> registered_operators"
      and h: "parseArgs (Suc n) args s = Some (Some es, t)" for args s es t
  proof -
    from h obtain arg s1 where e: "parseExpression n s = Some (Some arg, s1)"
      by (subst (asm) parseArgs.simps(2)) (auto split: option.splits prod.splits)
    from E [OF reg e] args have args1: "(\<Union>a \<in> set (args @ [arg]). binary_ops a) \<subseteq> registered_operators"
      by auto
    have reg1: "registered_only (BinopPrecedence (getNextToken s1))"
      using registered_only_reaches [OF reg parseExpression_reaches [OF e]] by simp
    from h e consider "es = args @ [arg]"
      | "parseArgs n (args @ [arg]) (getNextToken s1) = Some (Some es, t)"
      by (subst (asm) parseArgs.simps(2)) (auto simp: Let_def logError_def split: if_splits)
    then show ?thesis
    proof cases
      case 1
      with args1 show ?thesis by simp
    next
      case 2
      from A [OF reg1 args1 2] show ?thesis .
    qed
  qed
  have 5: "binary_ops e \<subseteq> registered_operators"
    if reg: "registered_only (BinopPrecedence s)" and p: "0 \<le> p"
      and lhs: "binary_ops lhs \<subseteq> registered_operators"
      and h: "parseBinOpRHS (Suc n) p lhs s = Some (Some e, t)" for p lhs s e t
  proof -
    obtain tok_prec s1 where g: "getTokPrecedence s = (tok_prec, s1)"
      by (cases "getTokPrecedence s")
    show ?thesis
    proof (cases "tok_prec < p")
      case True
      with h g lhs show ?thesis
        by (subst (asm) parseBinOpRHS.simps(2)) simp
    next
      case False
      with p have tp: "0 \<le> tok_prec"
        by simp
      from getTokPrecedence_registered [OF g reg] tp
      have reg1: "registered_only (BinopPrecedence s1)"
        and op: "char_of (cur_tok s1) \<in> registered_operators"
        by simp_all
      from h g False obtain rhs s3 where pr: "parsePrimary n (getNextToken s1) = Some (Some rhs, s3)"
        by (subst (asm) parseBinOpRHS.simps(2)) (auto simp: Let_def split: option.splits prod.splits)
      have reg2: "registered_only (BinopPrecedence (getNextToken s1))"
        using reg1 by simp
      from P [OF reg2 pr] have rhs: "binary_ops rhs \<subseteq> registered_operators" .
      have reg3: "registered_only (BinopPrecedence s3)"
        using registered_only_reaches [OF reg2 parsePrimary_reaches [OF pr]] .
      obtain next_prec s4 where g2: "getTokPrecedence s3 = (next_prec, s4)"
        by (cases "getTokPrecedence s3")
      from getTokPrecedence_registered(1) [OF g2 reg3]
      have reg4: "registered_only (BinopPrecedence s4)" .
      show ?thesis
      proof (cases "tok_prec < next_prec")
        case True
        with h g False pr g2 obtain rhs1 s5
          where r1: "parseBinOpRHS n (tok_prec + 1) rhs s4 = Some (Some rhs1, s5)"
            and r2: "parseBinOpRHS n p (BinaryExprAST (char_of (cur_tok s1)) lhs rhs1) s5 = Some (Some e, t)"
          by (subst (asm) parseBinOpRHS.simps(2)) (auto simp: Let_def split: option.splits prod.splits)
        from R [OF reg4 _ rhs r1] tp have rhs1: "binary_ops rhs1 \<subseteq> registered_operators"
          by simp
        have reg5: "registered_only (BinopPrecedence s5)"
          using registered_only_reaches [OF reg4 parseBinOpRHS_reaches [OF r1]] .
        from R [OF reg5 p _ r2] op lhs rhs1 show ?thesis
          by simp
      next
        case nlt: False
        with h g False pr g2
        have r2: "parseBinOpRHS n p (BinaryExprAST (char_of (cur_tok s1)) lhs rhs) s4 = Some (Some e, t)"
          by (subst (asm) parseBinOpRHS.simps(2)) (auto simp: Let_def)
        from R [OF reg4 p _ r2] op lhs rhs show ?thesis
          by simp
      qed
    qed
  qed
  have 6: "binary_ops e \<subseteq> registered_operators"
    if reg: "registered_only (BinopPrecedence s)" and h: "parseExpression (Suc n) s = Some (Some e, t)" for s e t
  proof -
    from h obtain lhs s1 where pr: "parsePrimary n s = Some (Some lhs, s1)"
      and r: "parseBinOpRHS n 0 lhs s1 = Some (Some e, t)"
      by (subst (asm) parseExpression.simps(2)) (auto split: option.splits prod.splits)
    have reg1: "registered_only (BinopPrecedence s1)"
      using registered_only_reaches [OF reg parsePrimary_reaches [OF pr]] .
    from R [OF reg1 _ P [OF reg pr] r] show ?thesis
      by simp
  qed
  show ?thesis
    unfolding ops_step_def using 1 2 3 4 5 6 by simp
qed

lemma ops_step_all: "ops_step n"
  by (induction n) (simp_all add: ops_step_def [of 0] ops_step_Suc)

lemma parseExpression_ops:
  "registered_only (BinopPrecedence s) \<Longrightarrow> parseExpression n s = Some (Some e, t) \<Longrightarrow>
     binary_ops e \<subseteq> registered_operators"
  using ops_step_all [of n] unfolding ops_step_def by simp

lemma parseBinOpRHS_ops:
  "registered_only (BinopPrecedence s) \<Longrightarrow> 0 \<le> p \<Longrightarrow> binary_ops lhs \<subseteq> registered_operators \<Longrightarrow>
     parseBinOpRHS n p lhs s = Some (Some e, t) \<Longrightarrow> binary_ops e \<subseteq> registered_operators"
  using ops_step_all [of n] unfolding ops_step_def by simp

lemma parseTopLevelExpr_ops:
  assumes "registered_only (BinopPrecedence s)"
    and "parseTopLevelExpr n s = Some (Some (FunctionAST proto e), t)"
  shows "binary_ops e \<subseteq> registered_operators"
proof -
  from assms(2) have "parseExpression n s = Some (Some e, t)"
    by (auto simp: parseTopLevelExpr_def Let_def split: option.splits prod.splits)
  with assms(1) show ?thesis
    by (rule parseExpression_ops)
qed

lemma parseDefinition_ops:
  assumes "registered_only (BinopPrecedence s)"
    and "parseDefinition n s = Some (Some (FunctionAST proto e), t)"
  shows "binary_ops e \<subseteq> registered_operators"
proof -
  from assms(2) obtain s2 where p: "parsePrototype n (getNextToken s) = Some (Some proto, s2)"
    and e: "parseExpression n s2 = Some (Some e, t)"
    by (auto simp: parseDefinition_def Let_def split: option.splits prod.splits)
  have "reaches s s2"
    using p by (rule parsePrototype_reaches2) (rule reaches_getNextToken [OF reaches_refl])
  with assms(1) have "registered_only (BinopPrecedence s2)"
    by (rule registered_only_reaches)
  then show ?thesis
    using e by (rule parseExpression_ops)
qed

lemma getTokPrecedence_positive:
  assumes "fst (getTokPrecedence s) \<noteq> - 1"
  shows "isascii (cur_tok s) \<and> 0 < fst (getTokPrecedence s) \<and>
         BinopPrecedence s (char_of (cur_tok s)) = Some (fst (getTokPrecedence s))"
  using assms by (auto simp: getTokPrecedence_value split: if_splits option.splits)

section \<open>Operators in the trees\<close>

text \<open>
  C9. The precedence query answers -1 or the positive entry of the ASCII token in the
  table. \<open>main\<close> starts the loop with a table whose positive entries are those of
  \<^verbatim>\<open><\<close>, \<^verbatim>\<open>+\<close>, \<^verbatim>\<open>-\<close> and \<^verbatim>\<open>*\<close>, and every pass through the loop keeps that. From a state
  with such a table every tree that \<open>parseExpression\<close>, \<open>parseTopLevelExpr\<close> and
  \<open>parseDefinition\<close> return has only these four characters as the operator of a
  \<open>BinaryExprAST\<close> node, at any depth; so has the tree of \<open>parseBinOpRHS\<close> when the
  minimal precedence is not negative (it is 0 or one more than a precedence in the
  source) and the left operand given to it has the property.
\<close>

theorem BinaryExprAST_operators_registered:
  "(fst (getTokPrecedence s) \<noteq> - 1 \<longrightarrow>
      isascii (cur_tok s) \<and> 0 < fst (getTokPrecedence s) \<and>
      BinopPrecedence s (char_of (cur_tok s)) = Some (fst (getTokPrecedence s))) \<and>
   registered_only (BinopPrecedence (main_primed inp)) \<and>
   (registered_only (BinopPrecedence s) \<and> dispatch n s = Some t \<longrightarrow>
      registered_only (BinopPrecedence t)) \<and>
   (registered_only (BinopPrecedence s) \<and> parseExpression n s = Some (Some e, t) \<longrightarrow>
      binary_ops e \<subseteq> registered_operators) \<and>
   (registered_only (BinopPrecedence s) \<and> 0 \<le> p \<and> binary_ops lhs \<subseteq> registered_operators \<and>
    parseBinOpRHS n p lhs s = Some (Some e, t) \<longrightarrow>
      binary_ops e \<subseteq> registered_operators) \<and>
   (registered_only (BinopPrecedence s) \<and>
    parseTopLevelExpr n s = Some (Some (FunctionAST proto e), t) \<longrightarrow>
      binary_ops e \<subseteq> registered_operators) \<and>
   (registered_only (BinopPrecedence s) \<and>
    parseDefinition n s = Some (Some (FunctionAST proto e), t) \<longrightarrow>
      binary_ops e \<subseteq> registered_operators)"
proof (intro conjI impI; (elim conjE)?)
  show "registered_only (BinopPrecedence (main_primed inp))"
    by (rule main_primed_registered_only)
  show "registered_only (BinopPrecedence t)"
    if "registered_only (BinopPrecedence s)" "dispatch n s = Some t"
    using that by (blast intro: registered_only_reaches dispatch_reaches)
  show "binary_ops e \<subseteq> registered_operators"
    if "registered_only (BinopPrecedence s)" "parseExpression n s = Some (Some e, t)"
    using that by (rule parseExpression_ops)
  show "binary_ops e \<subseteq> registered_operators"
    if "registered_only (BinopPrecedence s)" "0 \<le> p" "binary_ops lhs \<subseteq> registered_operators"
      "parseBinOpRHS n p lhs s = Some (Some e, t)"
    using that by (rule parseBinOpRHS_ops)
  show "binary_ops e \<subseteq> registered_operators"
    if "registered_only (BinopPrecedence s)"
      "parseTopLevelExpr n s = Some (Some (FunctionAST proto e), t)"
    using that by (rule parseTopLevelExpr_ops)
  show "binary_ops e \<subseteq> registered_operators"
    if "registered_only (BinopPrecedence s)"
      "parseDefinition n s = Some (Some (FunctionAST proto e), t)"
    using that by (rule parseDefinition_ops)
qed (simp_all add: getTokPrecedence_positive)

text \<open>The tree of \<^verbatim>\<open>a<b*c\<close>, parsed in the state in which \<open>main\<close> enters the loop.\<close>

theorem BinaryExprAST_operators_registered_witness:
  "let s = main_primed ''a<b*c'';
       e = BinaryExprAST CHR ''<'' (VariableExprAST ''a'')
             (BinaryExprAST CHR ''*'' (VariableExprAST ''b'') (VariableExprAST ''c''));
       t = snd (the (parseExpression 9 s))
   in registered_only (BinopPrecedence s) \<and> parseExpression 9 s = Some (Some e, t) \<and>
      binary_ops e = {CHR ''<'', CHR ''*''} \<and> binary_ops e \<subseteq> registered_operators"
proof -
  define s where "s = main_primed ''a<b*c''"
  define e where "e = BinaryExprAST CHR ''<'' (VariableExprAST ''a'')
             (BinaryExprAST CHR ''*'' (VariableExprAST ''b'') (VariableExprAST ''c''))"
  define t where "t = snd (the (parseExpression 9 s))"
  note th = BinaryExprAST_operators_registered [of _ "''a<b*c''"]
  have a: "registered_only (BinopPrecedence s)"
    unfolding s_def by (rule th [THEN conjunct2, THEN conjunct1])
  have "map_option fst (parseExpression 9 s) = Some (Some e)"
    unfolding s_def e_def by code_simp
  then have b: "parseExpression 9 s = Some (Some e, t)"
    unfolding t_def by (cases "parseExpression 9 s") (auto simp del: parseExpression.simps)
  from BinaryExprAST_operators_registered [THEN conjunct2, THEN conjunct2, THEN conjunct2,
      THEN conjunct1, rule_format, OF conjI [OF a b]]
  have c: "binary_ops e \<subseteq> registered_operators" .
  have d: "binary_ops e = {CHR ''<'', CHR ''*''}"
    unfolding e_def by auto
  from a b c d show ?thesis
    unfolding Let_def s_def [symmetric] e_def [symmetric] t_def [symmetric]
    by (simp del: parseExpression.simps)
qed

section \<open>Every parse returns\<close>

lemma pending_pos: "cur_tok s \<noteq> tok_eof \<Longrightarrow> 0 < pending s"
  by (simp add: pending_def)

lemma pending_getTokPrecedence [simp]: "pending (snd (getTokPrecedence s)) = pending s"
  by (simp add: pending_def lexer_pending_def)

lemma pending_getTokPrecedence_eq: "getTokPrecedence s = (p, t) \<Longrightarrow> pending t = pending s"
  using pending_getTokPrecedence [of s] by simp

lemma pending_fprintf_stderr [simp]: "pending (fprintf_stderr msg s) = pending s"
  by (simp add: pending_def lexer_pending_def)

lemma parsePrimary_success:
  assumes "parsePrimary n s = Some (Some e, t)"
  shows "cur_tok s \<noteq> tok_eof" and "reaches (getNextToken s) t"
proof -
  obtain m where n: "n = Suc m"
    using assms by (cases n) simp_all
  note [simp del] = parseParenExpr.simps(2) parseIdentifierExpr.simps(2) parseArgs.simps(2)
    parseExpression.simps(2)
  from assms show "cur_tok s \<noteq> tok_eof"
    unfolding n by (auto simp: logError_def Token_defs split: if_splits)
  from assms consider
      (ident) "parseIdentifierExpr m s = Some (Some e, t)"
    | (num) "t = getNextToken s"
    | (paren) "parseParenExpr m s = Some (Some e, t)"
    unfolding n by (auto simp: logError_def parseNumberExpr_def split: if_splits)
  then show "reaches (getNextToken s) t"
  proof cases
    case ident
    then obtain k where m: "m = Suc k"
      by (cases m) simp_all
    from ident show ?thesis
      unfolding m
      by (subst (asm) parseIdentifierExpr.simps(2))
         (fastforce simp: Let_def split: if_splits option.splits prod.splits
            intro: reaches_intros dest: parseArgs_reaches elim: reaches_trans [rotated])
  next
    case num
    then show ?thesis
      by (simp add: reaches_refl)
  next
    case paren
    then obtain k where m: "m = Suc k"
      by (cases m) simp_all
    from paren show ?thesis
      unfolding m
      by (subst (asm) parseParenExpr.simps(2))
         (fastforce simp: Let_def logError_def split: if_splits option.splits prod.splits
            intro: reaches_intros dest: parseExpression_reaches)
  qed
qed

lemma parsePrimary_success_pending:
  assumes "parsePrimary n s = Some (Some e, t)"
  shows "pending t < pending s"
proof -
  from parsePrimary_success [OF assms]
  have "0 < pending s" and "pending t \<le> pending (getNextToken s)"
    by (simp_all add: pending_pos reaches_pending)
  with getNextToken_pending [of s] show ?thesis
    by simp
qed

lemma parseExpression_success_pending:
  assumes "parseExpression n s = Some (Some e, t)"
  shows "pending t < pending s"
proof -
  obtain m where n: "n = Suc m"
    using assms by (cases n) simp_all
  from assms obtain lhs s1 where p: "parsePrimary m s = Some (Some lhs, s1)"
    and r: "parseBinOpRHS m 0 lhs s1 = Some (Some e, t)"
    unfolding n by (auto split: option.splits prod.splits simp del: parsePrimary.simps parseBinOpRHS.simps)
  from parsePrimary_success_pending [OF p] reaches_pending [OF parseBinOpRHS_reaches [OF r]]
  show ?thesis
    by simp
qed

lemma parsePrimary_at_end:
  "pending s = 0 \<Longrightarrow> parsePrimary (Suc m) s = Some (logError ''unknown token when expecting an expression'' s)"
  by (simp add: pending_0_iff Token_defs)

lemma parseExpression_at_end:
  "pending s = 0 \<Longrightarrow> parseExpression (Suc (Suc m)) s \<noteq> None"
  by (simp add: pending_0_iff Token_defs logError_def)

lemma total_step_Suc:
  assumes "total_step n"
  shows "total_step (Suc n)"
proof -
  have P: "\<And>s. 4 * pending s + 4 \<le> n \<Longrightarrow> parsePrimary n s \<noteq> None"
   and Pa: "\<And>s. 4 * pending s + 3 \<le> n \<Longrightarrow> parseParenExpr n s \<noteq> None"
   and I: "\<And>s. 4 * pending s + 1 \<le> n \<Longrightarrow> parseIdentifierExpr n s \<noteq> None"
   and A: "\<And>a s. 4 * pending s + 6 \<le> n \<Longrightarrow> parseArgs n a s \<noteq> None"
   and R: "\<And>p l s. 4 * pending s + 2 \<le> n \<Longrightarrow> parseBinOpRHS n p l s \<noteq> None"
   and E: "\<And>s. 4 * pending s + 5 \<le> n \<Longrightarrow> parseExpression n s \<noteq> None"
    using assms unfolding total_step_def by simp_all
  note [simp del] = parsePrimary.simps(2) parseParenExpr.simps(2) parseIdentifierExpr.simps(2)
    parseArgs.simps(2) parseBinOpRHS.simps(2) parseExpression.simps(2)
  have 1: "parsePrimary (Suc n) s \<noteq> None" if b: "4 * pending s + 4 \<le> Suc n" for s
  proof -
    from b have "4 * pending s + 1 \<le> n" and "4 * pending s + 3 \<le> n"
      by simp_all
    with I Pa have "parseIdentifierExpr n s \<noteq> None" and "parseParenExpr n s \<noteq> None"
      by simp_all
    then show ?thesis
      by (subst parsePrimary.simps(2)) simp
  qed
  have 2: "parseParenExpr (Suc n) s \<noteq> None" if b: "4 * pending s + 3 \<le> Suc n" for s
  proof -
    let ?s1 = "getNextToken s"
    have le: "pending ?s1 \<le> pending s - 1"
      by (rule getNextToken_pending)
    have "parseExpression n ?s1 \<noteq> None"
    proof (cases "pending s = 0")
      case True
      with le have z: "pending ?s1 = 0"
        by simp
      from b obtain k where "n = Suc (Suc k)"
        by (cases n; cases "n - 1") auto
      with parseExpression_at_end [OF z] show ?thesis
        by simp
    next
      case False
      with le b have "4 * pending ?s1 + 5 \<le> n"
        by simp
      then show ?thesis
        by (rule E)
    qed
    then show ?thesis
      by (subst parseParenExpr.simps(2))
         (auto simp: Let_def logError_def split: option.splits prod.splits)
  qed
  have 3: "parseIdentifierExpr (Suc n) s \<noteq> None" if b: "4 * pending s + 1 \<le> Suc n" for s
  proof -
    let ?s1 = "getNextToken s"
    let ?s2 = "getNextToken ?s1"
    show ?thesis
    proof (cases "cur_tok ?s1 = 40 \<and> cur_tok ?s2 \<noteq> 41")
      case True
      then have "cur_tok ?s1 \<noteq> tok_eof"
        by (simp add: Token_defs)
      then have "0 < pending ?s1"
        by (rule pending_pos)
      with getNextToken_pending [of s] getNextToken_pending [of ?s1]
      have "pending ?s2 + 2 \<le> pending s"
        by simp
      with b have "4 * pending ?s2 + 6 \<le> n"
        by simp
      then have "parseArgs n [] ?s2 \<noteq> None"
        by (rule A)
      with True show ?thesis
        by (subst parseIdentifierExpr.simps(2))
           (auto simp: Let_def split: option.splits prod.splits)
    next
      case False
      then show ?thesis
        by (subst parseIdentifierExpr.simps(2)) (auto simp: Let_def)
    qed
  qed
  have 4: "parseArgs (Suc n) a s \<noteq> None" if b: "4 * pending s + 6 \<le> Suc n" for a s
  proof -
    from b have "4 * pending s + 5 \<le> n"
      by simp
    then have e: "parseExpression n s \<noteq> None"
      by (rule E)
    have "parseArgs n (a @ [arg]) (getNextToken s1) \<noteq> None"
      if "parseExpression n s = Some (Some arg, s1)" for arg s1
    proof -
      from parseExpression_success_pending [OF that] have "pending s1 < pending s" .
      with getNextToken_pending [of s1] b have "4 * pending (getNextToken s1) + 6 \<le> n"
        by simp
      then show ?thesis
        by (rule A)
    qed
    with e show ?thesis
      by (subst parseArgs.simps(2))
         (auto simp: Let_def logError_def split: option.splits prod.splits)
  qed
  have 5: "parseBinOpRHS (Suc n) p l s \<noteq> None" if b: "4 * pending s + 2 \<le> Suc n" for p l s
  proof -
    obtain tp s1 where g: "getTokPrecedence s = (tp, s1)"
      by (cases "getTokPrecedence s")
    have ps1: "pending s1 = pending s"
      using g by (rule pending_getTokPrecedence_eq)
    let ?s2 = "getNextToken s1"
    have le: "pending ?s2 \<le> pending s - 1"
      using getNextToken_pending [of s1] ps1 by simp
    have prim: "parsePrimary n ?s2 \<noteq> None"
    proof (cases "pending s = 0")
      case True
      with le have z: "pending ?s2 = 0"
        by simp
      from b obtain k where "n = Suc k"
        by (cases n) auto
      with parsePrimary_at_end [OF z] show ?thesis
        by simp
    next
      case False
      with le b have "4 * pending ?s2 + 4 \<le> n"
        by simp
      then show ?thesis
        by (rule P)
    qed
    show ?thesis
    proof (cases "tp < p")
      case True
      then show ?thesis
        by (subst parseBinOpRHS.simps(2)) (simp add: g)
    next
      case nlt: False
      from prim obtain r s3 where pr: "parsePrimary n ?s2 = Some (r, s3)"
        by (cases "parsePrimary n ?s2") auto
      show ?thesis
      proof (cases r)
        case None
        with nlt pr show ?thesis
          by (subst parseBinOpRHS.simps(2)) (simp add: g Let_def)
      next
        case (Some rhs)
        obtain np s4 where g2: "getTokPrecedence s3 = (np, s4)"
          by (cases "getTokPrecedence s3")
        have ps4: "pending s4 = pending s3"
          using g2 by (rule pending_getTokPrecedence_eq)
        from parsePrimary_success_pending [OF pr [unfolded Some]] le
        have lt: "pending s3 + 2 \<le> pending s"
          by simp
        have small: "parseBinOpRHS n p1 l1 s6 \<noteq> None" if "pending s6 \<le> pending s3" for p1 l1 s6
        proof -
          from that lt b have "4 * pending s6 + 2 \<le> n"
            by simp
          then show ?thesis
            by (rule R)
        qed
        show ?thesis
        proof (cases "tp < np")
          case True
          from small [of s4 "tp + 1" rhs] ps4 obtain r1 s5
            where r1: "parseBinOpRHS n (tp + 1) rhs s4 = Some (r1, s5)"
            by (cases "parseBinOpRHS n (tp + 1) rhs s4") auto
          from reaches_pending [OF parseBinOpRHS_reaches [OF r1]] ps4
          have "pending s5 \<le> pending s3"
            by simp
          then have "parseBinOpRHS n p l1 s5 \<noteq> None" for l1
            by (rule small)
          with nlt pr Some True r1 show ?thesis
            by (subst parseBinOpRHS.simps(2)) (simp add: g g2 Let_def split: option.splits)
        next
          case False
          from small [of s4] ps4 have "parseBinOpRHS n p l1 s4 \<noteq> None" for l1
            by simp
          with nlt pr Some False show ?thesis
            by (subst parseBinOpRHS.simps(2)) (simp add: g g2 Let_def)
        qed
      qed
    qed
  qed
  have 6: "parseExpression (Suc n) s \<noteq> None" if b: "4 * pending s + 5 \<le> Suc n" for s
  proof -
    from b have "4 * pending s + 4 \<le> n"
      by simp
    then have "parsePrimary n s \<noteq> None"
      by (rule P)
    then obtain r s1 where pr: "parsePrimary n s = Some (r, s1)"
      by (cases "parsePrimary n s") auto
    show ?thesis
    proof (cases r)
      case None
      with pr show ?thesis
        by (subst parseExpression.simps(2)) simp
    next
      case (Some lhs)
      from parsePrimary_success_pending [OF pr [unfolded Some]] b
      have "4 * pending s1 + 2 \<le> n"
        by simp
      then have "parseBinOpRHS n 0 lhs s1 \<noteq> None"
        by (rule R)
      with pr Some show ?thesis
        by (subst parseExpression.simps(2)) simp
    qed
  qed
  show ?thesis
    unfolding total_step_def using 1 2 3 4 5 6 by simp
qed

lemma total_step_all: "total_step n"
  by (induction n) (simp_all add: total_step_def [of 0] total_step_Suc)

lemma parseExpression_total: "4 * pending s + 5 \<le> n \<Longrightarrow> parseExpression n s \<noteq> None"
  using total_step_all [of n] unfolding total_step_def by simp

lemma parsePrototype_names_total:
  "pending s + 1 \<le> n \<Longrightarrow> parsePrototype_names n a s \<noteq> None"
proof (induction n arbitrary: a s)
  case 0
  then show ?case by simp
next
  case (Suc n)
  let ?s1 = "getNextToken s"
  show ?case
  proof (cases "cur_tok ?s1 = tok_identifier")
    case True
    then have "0 < pending ?s1"
      by (simp add: pending_pos Token_defs)
    with getNextToken_pending [of s] Suc.prems have "pending ?s1 + 1 \<le> n"
      by simp
    from Suc.IH [OF this] True show ?thesis
      by (simp add: Let_def)
  next
    case False
    then show ?thesis
      by (simp add: Let_def)
  qed
qed

lemma parsePrototype_total: "pending s + 1 \<le> n \<Longrightarrow> parsePrototype n s \<noteq> None"
proof -
  assume b: "pending s + 1 \<le> n"
  have "pending (getNextToken s) + 1 \<le> n"
    using getNextToken_pending [of s] b by simp
  then have "parsePrototype_names n [] (getNextToken s) \<noteq> None"
    by (rule parsePrototype_names_total)
  then show ?thesis
    by (auto simp: parsePrototype_def Let_def logErrorP_def logError_def split: option.splits)
qed

lemma parseDefinition_total:
  assumes "4 * pending s + 5 \<le> n"
  shows "parseDefinition n s \<noteq> None"
proof -
  let ?s1 = "getNextToken s"
  have le: "pending ?s1 \<le> pending s"
    using getNextToken_pending [of s] by simp
  with assms have "pending ?s1 + 1 \<le> n"
    by simp
  then have "parsePrototype n ?s1 \<noteq> None"
    by (rule parsePrototype_total)
  then obtain r s2 where p: "parsePrototype n ?s1 = Some (r, s2)"
    by (cases "parsePrototype n ?s1") auto
  have "pending s2 \<le> pending ?s1"
    using reaches_pending [OF parsePrototype_reaches2 [OF p reaches_refl]] .
  with le assms have "4 * pending s2 + 5 \<le> n"
    by simp
  then have "parseExpression n s2 \<noteq> None"
    by (rule parseExpression_total)
  with p show ?thesis
    by (auto simp: parseDefinition_def Let_def split: option.splits)
qed

lemma dispatch_total:
  assumes "4 * pending s + 5 \<le> n"
  shows "dispatch n s \<noteq> None"
proof -
  have d: "parseDefinition n s \<noteq> None"
    using assms by (rule parseDefinition_total)
  have "pending (getNextToken s) + 1 \<le> n"
    using getNextToken_pending [of s] assms by simp
  then have x: "parseExtern n s \<noteq> None"
    unfolding parseExtern_def by (rule parsePrototype_total)
  have "parseExpression n s \<noteq> None"
    using assms by (rule parseExpression_total)
  then have e: "parseTopLevelExpr n s \<noteq> None"
    by (auto simp: parseTopLevelExpr_def Let_def split: option.splits)
  from d x e show ?thesis
    by (auto simp: dispatch_def handleDefinition_def handleExtern_def handleTopLevelExpression_def
          split: option.splits)
qed

lemma parseDefinition_consumes:
  assumes "parseDefinition n s = Some (r, t)"
  shows "reaches (getNextToken s) t"
proof -
  from assms obtain r1 s2 where p: "parsePrototype n (getNextToken s) = Some (r1, s2)"
    by (auto simp: parseDefinition_def Let_def split: option.splits)
  have 1: "reaches (getNextToken s) s2"
    using p by (rule parsePrototype_reaches2) (rule reaches_refl)
  from assms p consider "t = s2" | r2 where "parseExpression n s2 = Some (r2, t)"
    by (auto simp: parseDefinition_def Let_def split: option.splits)
  then show ?thesis
  proof cases
    case 1
    with \<open>reaches (getNextToken s) s2\<close> show ?thesis
      by simp
  next
    case 2
    then show ?thesis
      using \<open>reaches (getNextToken s) s2\<close> by (rule parseExpression_reaches2)
  qed
qed

lemma getNextToken_pending_le: "pending (getNextToken s) \<le> pending s"
  using getNextToken_pending [of s] by simp

lemma handleDefinition_progress:
  assumes "cur_tok s \<noteq> tok_eof" and "handleDefinition n s = Some t"
  shows "pending t < pending s"
proof -
  from assms(2) obtain r s1 where p: "parseDefinition n s = Some (r, s1)"
    and t: "pending t \<le> pending s1"
    by (auto simp: handleDefinition_def getNextToken_pending_le split: option.splits)
  from reaches_pending [OF parseDefinition_consumes [OF p]] getNextToken_pending [of s]
    pending_pos [OF assms(1)] t
  show ?thesis
    by simp
qed

lemma handleExtern_progress:
  assumes "cur_tok s \<noteq> tok_eof" and "handleExtern n s = Some t"
  shows "pending t < pending s"
proof -
  from assms(2) obtain r s1 where p: "parsePrototype n (getNextToken s) = Some (r, s1)"
    and t: "pending t \<le> pending s1"
    by (auto simp: handleExtern_def parseExtern_def getNextToken_pending_le split: option.splits)
  from reaches_pending [OF parsePrototype_reaches2 [OF p reaches_refl]]
    getNextToken_pending [of s] pending_pos [OF assms(1)] t
  show ?thesis
    by simp
qed

lemma handleTopLevelExpression_progress:
  assumes "cur_tok s \<noteq> tok_eof" and "handleTopLevelExpression n s = Some t"
  shows "pending t < pending s"
proof -
  have pos: "0 < pending s"
    using assms(1) by (rule pending_pos)
  from assms(2) consider (ok) e s1 where "parseExpression n s = Some (Some e, s1)" "pending t = pending s1"
    | (fail) s1 where "parseExpression n s = Some (None, s1)" "t = getNextToken s1"
    by (auto simp: handleTopLevelExpression_def parseTopLevelExpr_def Let_def
          split: option.splits)
  then show ?thesis
  proof cases
    case ok
    with parseExpression_success_pending [OF ok(1)] show ?thesis
      by simp
  next
    case fail
    from reaches_pending [OF parseExpression_reaches [OF fail(1)]]
    have "pending s1 \<le> pending s" .
    with getNextToken_pending [of s1] pos fail(2) show ?thesis
      by simp
  qed
qed

lemma dispatch_progress:
  assumes "cur_tok s \<noteq> tok_eof" and "dispatch n s = Some t"
  shows "pending t < pending s"
proof (cases "cur_tok s = 59")
  case True
  with assms(2) have "t = getNextToken s"
    by (simp add: dispatch_def)
  with getNextToken_pending [of s] pending_pos [OF assms(1)] show ?thesis
    by simp
next
  case semi: False
  show ?thesis
  proof (cases "cur_tok s = tok_def")
    case True
    with assms(2) semi have "handleDefinition n s = Some t"
      by (simp add: dispatch_def)
    with assms(1) show ?thesis
      by (rule handleDefinition_progress)
  next
    case def: False
    show ?thesis
    proof (cases "cur_tok s = tok_extern")
      case True
      with assms(2) semi def have "handleExtern n s = Some t"
        by (simp add: dispatch_def)
      with assms(1) show ?thesis
        by (rule handleExtern_progress)
    next
      case False
      with assms(2) semi def have "handleTopLevelExpression n s = Some t"
        by (simp add: dispatch_def)
      with assms(1) show ?thesis
        by (rule handleTopLevelExpression_progress)
    qed
  qed
qed

lemma mainLoop_at_end:
  "cur_tok s = tok_eof \<Longrightarrow> mainLoop (Suc n) s = Some (fprintf_stderr ''ready> '' s)"
  by (simp add: Let_def)

lemma mainLoop_stops_at_eof: "mainLoop n s = Some t \<Longrightarrow> cur_tok t = tok_eof"
proof (induction n arbitrary: s)
  case 0
  then show ?case by simp
next
  case (Suc n)
  then show ?case
    by (auto simp: Let_def split: if_splits option.splits)
qed

lemma mainLoop_total: "5 * pending s + 6 \<le> n \<Longrightarrow> mainLoop n s \<noteq> None"
proof (induction n arbitrary: s)
  case 0
  then show ?case by simp
next
  case (Suc n)
  let ?s0 = "fprintf_stderr ''ready> '' s"
  show ?case
  proof (cases "cur_tok ?s0 = tok_eof")
    case True
    then show ?thesis
      by (simp add: Let_def)
  next
    case False
    from Suc.prems have "4 * pending ?s0 + 5 \<le> n"
      by simp
    then have "dispatch n ?s0 \<noteq> None"
      by (rule dispatch_total)
    then obtain s1 where d: "dispatch n ?s0 = Some s1"
      by auto
    from dispatch_progress [OF False d] Suc.prems have "5 * pending s1 + 6 \<le> n"
      by simp
    from Suc.IH [OF this] False d show ?thesis
      by (simp add: Let_def)
  qed
qed

lemma pending_main_primed: "pending (main_primed inp) \<le> 2 * length inp + 2"
proof -
  let ?s = "fprintf_stderr ''ready> '' (install_operators (initial_state inp))"
  have "pending ?s \<le> 2 * length inp + 3"
    by (simp add: pending_def lexer_pending_def install_operators_def initial_state_def)
  with getNextToken_pending [of ?s] show ?thesis
    unfolding main_primed_def by simp
qed

lemma of_char_not_EOF: "(of_char c :: int) \<noteq> EOF"
proof -
  have "(of_char c :: int) = int (of_char c)"
    by (simp only: of_nat_of_char)
  then show ?thesis
    by (simp add: EOF_def)
qed

lemma getchar_read: "last_char (getchar s) = EOF \<Longrightarrow> stdin (getchar s) = []"
  by (auto simp: getchar_def of_char_not_EOF split: list.splits)

lemma skip_whitespace_read:
  "(last_char s = EOF \<longrightarrow> stdin s = []) \<Longrightarrow>
   (last_char (skip_whitespace s) = EOF \<longrightarrow> stdin (skip_whitespace s) = [])"
proof (induction s rule: skip_whitespace.induct)
  case (1 s)
  show ?case
  proof (cases "isspace (last_char s)")
    case True
    have eq: "skip_whitespace s = skip_whitespace (getchar s)"
      using True by (subst skip_whitespace.simps) simp
    have "last_char (getchar s) = EOF \<longrightarrow> stdin (getchar s) = []"
      by (simp add: getchar_read)
    from "1.IH" [OF True this] show ?thesis
      unfolding eq .
  next
    case False
    have eq: "skip_whitespace s = s"
      using False by (subst skip_whitespace.simps) simp
    from "1.prems" show ?thesis
      unfolding eq .
  qed
qed

lemma identifier_loop_read:
  "last_char (identifier_loop s) = EOF \<longrightarrow> stdin (identifier_loop s) = []"
proof (induction s rule: identifier_loop.induct)
  case (1 s)
  show ?case
  proof (cases "isalnum (last_char (getchar s))")
    case True
    have eq: "identifier_loop s =
        identifier_loop (getchar s
          \<lparr>identifier_str := identifier_str (getchar s) @ [char_of (last_char (getchar s))]\<rparr>)"
      using True by (subst identifier_loop.simps) (simp add: Let_def)
    from "1.IH" [OF refl True] show ?thesis
      unfolding eq .
  next
    case False
    have eq: "identifier_loop s = getchar s"
      using False by (subst identifier_loop.simps) (simp add: Let_def)
    show ?thesis
      unfolding eq by (simp add: getchar_read)
  qed
qed

lemma number_loop_read:
  "last_char (snd (number_loop str s)) = EOF \<longrightarrow> stdin (snd (number_loop str s)) = []"
proof (induction str s rule: number_loop.induct)
  case (1 str s)
  show ?case
  proof (cases "isdigit (last_char (getchar s)) \<or> last_char (getchar s) = 46")
    case True
    have eq: "number_loop str s = number_loop (str @ [char_of (last_char s)]) (getchar s)"
      using True by (subst number_loop.simps) (simp add: Let_def)
    from "1.IH" [OF refl refl True] show ?thesis
      unfolding eq .
  next
    case False
    have eq: "number_loop str s = (str @ [char_of (last_char s)], getchar s)"
      using False by (subst number_loop.simps) (simp add: Let_def)
    show ?thesis
      unfolding eq by (simp add: getchar_read)
  qed
qed

lemma getTok_read:
  assumes "last_char s = EOF \<longrightarrow> stdin s = []"
  shows "last_char (snd (getTok s)) = EOF \<longrightarrow> stdin (snd (getTok s)) = []"
  using skip_whitespace_read [OF assms] identifier_loop_read number_loop_read
  by (simp add: getTok_def Let_def case_prod_beta getchar_read)

lemma primitive_step_read:
  assumes "primitive_step s t" and "last_char s = EOF \<longrightarrow> stdin s = []"
  shows "last_char t = EOF \<longrightarrow> stdin t = []"
  using assms getTok_read [of s]
  unfolding primitive_step_def
  by (auto simp: getNextToken_alt)

lemma reaches_read:
  "reaches s t \<Longrightarrow> (last_char s = EOF \<longrightarrow> stdin s = []) \<Longrightarrow> (last_char t = EOF \<longrightarrow> stdin t = [])"
  unfolding reaches_def
  by (induction rule: rtranclp_induct) (auto dest: primitive_step_read)

lemma primitive_step_at_eof:
  assumes "primitive_step s t" and "cur_tok s = tok_eof \<longrightarrow> pending s = 0"
  shows "cur_tok t = tok_eof \<longrightarrow> pending t = 0"
  using assms getNextToken_eof_pending [of s]
  unfolding primitive_step_def
  by (auto simp: pending_def lexer_pending_def)

lemma reaches_at_eof:
  "reaches s t \<Longrightarrow> (cur_tok s = tok_eof \<longrightarrow> pending s = 0) \<Longrightarrow> (cur_tok t = tok_eof \<longrightarrow> pending t = 0)"
  unfolding reaches_def
  by (induction rule: rtranclp_induct) (auto dest: primitive_step_at_eof)

lemma mainLoop_step:
  "cur_tok s \<noteq> tok_eof \<Longrightarrow>
   mainLoop (Suc n) s =
     (case dispatch n (fprintf_stderr ''ready> '' s) of None \<Rightarrow> None | Some t \<Rightarrow> mainLoop n t)"
  by (simp add: Let_def)

lemma mainLoop_less_pending:
  assumes "cur_tok s \<noteq> tok_eof" and "mainLoop n s = Some t"
  shows "pending t < pending s"
proof -
  obtain m where n: "n = Suc m"
    using assms(2) by (cases n) simp_all
  let ?s0 = "fprintf_stderr ''ready> '' s"
  have c: "cur_tok ?s0 \<noteq> tok_eof"
    using assms(1) by simp
  from assms obtain s1 where d: "dispatch m ?s0 = Some s1" and l: "mainLoop m s1 = Some t"
    unfolding n by (auto simp: Let_def split: option.splits)
  from dispatch_progress [OF c d] reaches_pending [OF mainLoop_reaches [OF l]]
  show ?thesis
    by simp
qed

lemma mainLoop_exit:
  assumes "mainLoop n s = Some t" and "cur_tok s = tok_eof \<longrightarrow> pending s = 0"
  shows "pending t = 0"
  using reaches_at_eof [OF mainLoop_reaches [OF assms(1)] assms(2)]
    mainLoop_stops_at_eof [OF assms(1)]
  by simp

lemma main_primed_at_eof: "cur_tok (main_primed inp) = tok_eof \<longrightarrow> pending (main_primed inp) = 0"
  unfolding main_primed_def by (simp add: getNextToken_eof_pending)

lemma main_primed_read: "last_char (main_primed inp) = EOF \<longrightarrow> stdin (main_primed inp) = []"
proof -
  let ?s = "fprintf_stderr ''ready> '' (install_operators (initial_state inp))"
  have "last_char ?s = EOF \<longrightarrow> stdin ?s = []"
    by (simp add: install_operators_def initial_state_def EOF_def)
  from getTok_read [OF this] show ?thesis
    unfolding main_primed_def by (simp add: getNextToken_alt)
qed

lemma main_exit:
  assumes "main n inp = Some t"
  shows "cur_tok t = tok_eof \<and> last_char t = EOF \<and> stdin t = []"
proof -
  have l: "mainLoop n (main_primed inp) = Some t"
    using assms by (simp add: main_def)
  from mainLoop_exit [OF l main_primed_at_eof] have "pending t = 0" .
  then have a: "cur_tok t = tok_eof" and b: "last_char t = EOF"
    by (simp_all add: pending_0_iff)
  from reaches_read [OF mainLoop_reaches [OF l] main_primed_read] b have "stdin t = []"
    by simp
  with a b show ?thesis
    by simp
qed

section \<open>The driver loop terminates\<close>

text \<open>
  C7. \<open>pending\<close> counts what is still to be consumed: the characters the lexer has not
  read and the current token when it is not \<open>tok_eof\<close>. With the current token at
  \<open>tok_eof\<close> the loop returns at once; it only ever returns with the current token at
  \<open>tok_eof\<close>. On any other token the pass through the \<^verbatim>\<open>switch\<close> returns (with a budget
  of \<open>4 * pending s + 5\<close>) and leaves strictly less pending: at least one token has
  been consumed, by the skip of \<^verbatim>\<open>;\<close>, by the parse, or by the recovery. The loop on
  such a token is that pass followed by the loop on the state the pass left, and
  nothing else. So from every state the loop returns, with any budget from
  \<open>5 * pending s + 6\<close> on; the state it returns is reached from the start by token
  advances, precedence queries and messages only; started on a token other than
  \<open>tok_eof\<close> it ends with less pending, in fact with nothing pending. And \<open>main\<close> returns
  on every input, with any budget from \<open>10 * length inp + 16\<close> on, with the whole input
  read: the lookahead is \<^verbatim>\<open>EOF\<close>, no character is left and the current token is
  \<open>tok_eof\<close>.
\<close>

theorem mainLoop_terminates:
  "(cur_tok s = tok_eof \<longrightarrow> mainLoop (Suc n) s = Some (fprintf_stderr ''ready> '' s)) \<and>
   (mainLoop n s = Some t \<longrightarrow> cur_tok t = tok_eof) \<and>
   (cur_tok s \<noteq> tok_eof \<and> 4 * pending s + 5 \<le> n \<longrightarrow> (\<exists>t. dispatch n s = Some t)) \<and>
   (cur_tok s \<noteq> tok_eof \<and> dispatch n s = Some t \<longrightarrow> pending t < pending s) \<and>
   (5 * pending s + 6 \<le> n \<longrightarrow> (\<exists>t. mainLoop n s = Some t \<and> cur_tok t = tok_eof)) \<and>
   (cur_tok s \<noteq> tok_eof \<longrightarrow>
      mainLoop (Suc n) s =
        (case dispatch n (fprintf_stderr ''ready> '' s) of
           None \<Rightarrow> None
         | Some t \<Rightarrow> mainLoop n t)) \<and>
   mainLoop 0 s = None \<and>
   (mainLoop n s = Some t \<longrightarrow> reaches s t \<and> pending t \<le> pending s) \<and>
   (cur_tok s \<noteq> tok_eof \<and> mainLoop n s = Some t \<longrightarrow> pending t < pending s \<and> pending t = 0) \<and>
   (main n inp = Some t \<longrightarrow> cur_tok t = tok_eof \<and> last_char t = EOF \<and> stdin t = []) \<and>
   (\<exists>t. main (10 * length inp + 16 + k) inp = Some t \<and> cur_tok t = tok_eof)"
proof (intro conjI impI; (elim conjE)?)
  show "mainLoop (Suc n) s = Some (fprintf_stderr ''ready> '' s)" if "cur_tok s = tok_eof"
    using that by (rule mainLoop_at_end)
  show "cur_tok t = tok_eof" if "mainLoop n s = Some t"
    using that by (rule mainLoop_stops_at_eof)
  show "\<exists>t. dispatch n s = Some t" if "4 * pending s + 5 \<le> n"
    using dispatch_total [OF that] by auto
  show "pending t < pending s" if "cur_tok s \<noteq> tok_eof" "dispatch n s = Some t"
    using that by (rule dispatch_progress)
  show "\<exists>t. mainLoop n s = Some t \<and> cur_tok t = tok_eof" if "5 * pending s + 6 \<le> n"
    using mainLoop_total [OF that] mainLoop_stops_at_eof by auto
  show "mainLoop (Suc n) s =
        (case dispatch n (fprintf_stderr ''ready> '' s) of
           None \<Rightarrow> None
         | Some t \<Rightarrow> mainLoop n t)" if "cur_tok s \<noteq> tok_eof"
    using that by (rule mainLoop_step)
  show "mainLoop 0 s = None"
    by simp
  show "reaches s t" if "mainLoop n s = Some t"
    using that by (rule mainLoop_reaches)
  show "pending t \<le> pending s" if "mainLoop n s = Some t"
    using that by (intro reaches_pending mainLoop_reaches)
  show "pending t < pending s" if "cur_tok s \<noteq> tok_eof" "mainLoop n s = Some t"
    using that by (rule mainLoop_less_pending)
  show "pending t = 0" if "cur_tok s \<noteq> tok_eof" "mainLoop n s = Some t"
    using that(2) by (rule mainLoop_exit) (simp add: that(1))
  show "cur_tok t = tok_eof" "last_char t = EOF" "stdin t = []" if "main n inp = Some t"
    using main_exit [OF that] by simp_all
  have "5 * pending (main_primed inp) + 6 \<le> 10 * length inp + 16 + k"
    using pending_main_primed [of inp] by simp
  from mainLoop_total [OF this] mainLoop_stops_at_eof
  show "\<exists>t. main (10 * length inp + 16 + k) inp = Some t \<and> cur_tok t = tok_eof"
    unfolding main_def by auto
qed

text \<open>
  On the malformed input \<^verbatim>\<open>(;\<close> the loop starts on the token \<^verbatim>\<open>(\<close> with 3 pending; the
  pass fails in the parse, recovers and leaves less; the loop is that pass and then the
  loop again, and it returns with nothing pending. On the empty input it starts on
  \<open>tok_eof\<close>. With no budget the pass and the loop do not return.
\<close>

theorem mainLoop_terminates_witness:
  "let e = main_primed [];
       s = main_primed ''(;'';
       t = the (dispatch 17 s);
       u = the (mainLoop 21 s);
       v = the (dispatch 20 (fprintf_stderr ''ready> '' s));
       m = the (main 36 ''(;'')
   in cur_tok e = tok_eof \<and> mainLoop (Suc 0) e = Some (fprintf_stderr ''ready> '' e) \<and>
      cur_tok s \<noteq> tok_eof \<and> pending s = 3 \<and>
      dispatch 17 s = Some t \<and> pending t < pending s \<and>
      mainLoop 21 s = Some u \<and> cur_tok u = tok_eof \<and>
      dispatch 20 (fprintf_stderr ''ready> '' s) = Some v \<and> mainLoop (Suc 20) s = mainLoop 20 v \<and>
      dispatch 0 (fprintf_stderr ''ready> '' s) = None \<and> mainLoop (Suc 0) s = None \<and>
      mainLoop 0 s = None \<and>
      reaches s u \<and> pending u < pending s \<and> pending u = 0 \<and>
      main 36 ''(;'' = Some m \<and> cur_tok m = tok_eof \<and> last_char m = EOF \<and> stdin m = []"
proof -
  define e where "e = main_primed []"
  define s where "s = main_primed ''(;''"
  define t where "t = the (dispatch 17 s)"
  define u where "u = the (mainLoop 21 s)"
  define v where "v = the (dispatch 20 (fprintf_stderr ''ready> '' s))"
  define m where "m = the (main 36 ''(;'')"
  note th = mainLoop_terminates [where k = 0 and inp = "''(;''"]
  have a: "cur_tok e = tok_eof"
    unfolding e_def by code_simp
  from th [THEN conjunct1, rule_format, OF a, of 0]
  have 1: "mainLoop (Suc 0) e = Some (fprintf_stderr ''ready> '' e)" .
  have b: "cur_tok s \<noteq> tok_eof"
    unfolding s_def by code_simp
  have c: "pending s = 3"
    unfolding s_def by code_simp
  from th [THEN conjunct2, THEN conjunct2, THEN conjunct1, rule_format, of s 17] b c
  have d: "dispatch 17 s = Some t"
    unfolding t_def by auto
  from th [THEN conjunct2, THEN conjunct2, THEN conjunct2, THEN conjunct1, rule_format,
      OF conjI [OF b d]]
  have 2: "pending t < pending s" .
  from th [THEN conjunct2, THEN conjunct2, THEN conjunct2, THEN conjunct2, THEN conjunct1,
      rule_format, of s 21] c
  have 3: "mainLoop 21 s = Some u \<and> cur_tok u = tok_eof"
    unfolding u_def by (auto simp del: mainLoop.simps)
  note rest = th [THEN conjunct2, THEN conjunct2, THEN conjunct2, THEN conjunct2, THEN conjunct2]
  have "dispatch 20 (fprintf_stderr ''ready> '' s) \<noteq> None"
    unfolding s_def by code_simp
  then have 4: "dispatch 20 (fprintf_stderr ''ready> '' s) = Some v"
    unfolding v_def by auto
  from rest [THEN conjunct1, rule_format, OF b, of 20]
  have 5: "mainLoop (Suc 20) s = mainLoop 20 v"
    by (simp add: 4 del: mainLoop.simps)
  have 6: "dispatch 0 (fprintf_stderr ''ready> '' s) = None"
    unfolding s_def by code_simp
  from rest [THEN conjunct1, rule_format, OF b, of 0]
  have 7: "mainLoop (Suc 0) s = None"
    by (simp add: 6 del: mainLoop.simps)
  from rest [THEN conjunct2, THEN conjunct1, of s]
  have 8: "mainLoop 0 s = None" .
  from rest [THEN conjunct2, THEN conjunct2, THEN conjunct1, rule_format, OF 3 [THEN conjunct1]]
  have 9: "reaches s u"
    by simp
  from rest [THEN conjunct2, THEN conjunct2, THEN conjunct2, THEN conjunct1, rule_format,
      OF conjI [OF b 3 [THEN conjunct1]]]
  have 10: "pending u < pending s \<and> pending u = 0" .
  from rest [THEN conjunct2, THEN conjunct2, THEN conjunct2, THEN conjunct2, THEN conjunct2]
  have 11: "main 36 ''(;'' = Some m"
    unfolding m_def by auto
  from rest [THEN conjunct2, THEN conjunct2, THEN conjunct2, THEN conjunct2, THEN conjunct1,
      rule_format, OF 11]
  have 12: "cur_tok m = tok_eof \<and> last_char m = EOF \<and> stdin m = []" .
  from a 1 b c d 2 3 4 5 6 7 8 9 10 11 12 show ?thesis
    unfolding Let_def e_def [symmetric] s_def [symmetric] t_def [symmetric] u_def [symmetric]
      v_def [symmetric] m_def [symmetric]
    by (simp del: mainLoop.simps)
qed

section \<open>One error for each failed parse\<close>

lemma stderr_getTokPrecedence_eq: "getTokPrecedence s = (p, t) \<Longrightarrow> stderr t = stderr s"
  using getTokPrecedence_frame(4) [of s] by simp

lemma one_error_logError:
  "stderr s1 = stderr s \<Longrightarrow>
   one_error s (fprintf_stderr
     (CHR ''E'' # CHR ''r'' # CHR ''r'' # CHR ''o'' # CHR ''r'' # CHR '':'' # CHR '' '' # msg) s1)"
  unfolding one_error_def fprintf_stderr_def by simp

lemma one_error_cong: "one_error s1 t \<Longrightarrow> stderr s1 = stderr s \<Longrightarrow> one_error s t"
  by (simp add: one_error_def)

lemma error_step_Suc:
  assumes "error_step n"
  shows "error_step (Suc n)"
proof -
  have P: "\<And>s e t. parsePrimary n s = Some (Some e, t) \<Longrightarrow> stderr t = stderr s"
   and Pn: "\<And>s t. parsePrimary n s = Some (None, t) \<Longrightarrow> one_error s t"
   and Pa: "\<And>s e t. parseParenExpr n s = Some (Some e, t) \<Longrightarrow> stderr t = stderr s"
   and Pan: "\<And>s t. parseParenExpr n s = Some (None, t) \<Longrightarrow> one_error s t"
   and I: "\<And>s e t. parseIdentifierExpr n s = Some (Some e, t) \<Longrightarrow> stderr t = stderr s"
   and In: "\<And>s t. parseIdentifierExpr n s = Some (None, t) \<Longrightarrow> one_error s t"
   and A: "\<And>a s e t. parseArgs n a s = Some (Some e, t) \<Longrightarrow> stderr t = stderr s"
   and An: "\<And>a s t. parseArgs n a s = Some (None, t) \<Longrightarrow> one_error s t"
   and R: "\<And>p l s e t. parseBinOpRHS n p l s = Some (Some e, t) \<Longrightarrow> stderr t = stderr s"
   and Rn: "\<And>p l s t. parseBinOpRHS n p l s = Some (None, t) \<Longrightarrow> one_error s t"
   and E: "\<And>s e t. parseExpression n s = Some (Some e, t) \<Longrightarrow> stderr t = stderr s"
   and En: "\<And>s t. parseExpression n s = Some (None, t) \<Longrightarrow> one_error s t"
    using assms unfolding error_step_def by simp_all
  note [simp del] = parsePrimary.simps(2) parseParenExpr.simps(2) parseIdentifierExpr.simps(2)
    parseArgs.simps(2) parseBinOpRHS.simps(2) parseExpression.simps(2)
  have ok1: "stderr t = stderr s" if "parsePrimary (Suc n) s = Some (Some e, t)" for s e t
    using that
    by (subst (asm) parsePrimary.simps(2))
       (auto simp: parseNumberExpr_def logError_def split: if_splits dest: I Pa)
  have no1: "one_error s t" if "parsePrimary (Suc n) s = Some (None, t)" for s t
    using that
    by (subst (asm) parsePrimary.simps(2))
       (auto simp: parseNumberExpr_def logError_def split: if_splits
          intro: In Pan one_error_logError)
  have ok2: "stderr t = stderr s" if "parseParenExpr (Suc n) s = Some (Some e, t)" for s e t
    using that
    by (subst (asm) parseParenExpr.simps(2))
       (auto simp: Let_def logError_def split: if_splits option.splits prod.splits dest: E)
  have no2: "one_error s t" if "parseParenExpr (Suc n) s = Some (None, t)" for s t
    using that
    by (subst (asm) parseParenExpr.simps(2))
       (auto simp: Let_def logError_def split: if_splits option.splits prod.splits
          dest!: E En intro: one_error_logError elim: one_error_cong)
  have ok3: "stderr t = stderr s" if "parseIdentifierExpr (Suc n) s = Some (Some e, t)" for s e t
    using that
    by (subst (asm) parseIdentifierExpr.simps(2))
       (auto simp: Let_def split: if_splits option.splits prod.splits dest: A)
  have no3: "one_error s t" if "parseIdentifierExpr (Suc n) s = Some (None, t)" for s t
    using that
    by (subst (asm) parseIdentifierExpr.simps(2))
       (auto simp: Let_def split: if_splits option.splits prod.splits
          dest!: An elim: one_error_cong)
  have ok4: "stderr t = stderr s" if "parseArgs (Suc n) a s = Some (Some e, t)" for a s e t
    using that
    by (subst (asm) parseArgs.simps(2))
       (auto simp: Let_def logError_def split: if_splits option.splits prod.splits
          dest!: E A)
  have no4: "one_error s t" if "parseArgs (Suc n) a s = Some (None, t)" for a s t
    using that
    by (subst (asm) parseArgs.simps(2))
       (auto simp: Let_def logError_def split: if_splits option.splits prod.splits
          dest!: E En An intro: one_error_logError elim: one_error_cong)
  have ok5: "stderr t = stderr s" if "parseBinOpRHS (Suc n) p l s = Some (Some e, t)" for p l s e t
    using that
    by (subst (asm) parseBinOpRHS.simps(2))
       (auto simp: Let_def split: if_splits option.splits prod.splits
          dest!: P R stderr_getTokPrecedence_eq)
  have no5: "one_error s t" if "parseBinOpRHS (Suc n) p l s = Some (None, t)" for p l s t
    using that
    by (subst (asm) parseBinOpRHS.simps(2))
       (auto simp: Let_def split: if_splits option.splits prod.splits
          dest!: P Pn R Rn stderr_getTokPrecedence_eq elim: one_error_cong)
  have ok6: "stderr t = stderr s" if "parseExpression (Suc n) s = Some (Some e, t)" for s e t
    using that
    by (subst (asm) parseExpression.simps(2))
       (auto split: option.splits prod.splits dest!: P R)
  have no6: "one_error s t" if "parseExpression (Suc n) s = Some (None, t)" for s t
    using that
    by (subst (asm) parseExpression.simps(2))
       (auto split: option.splits prod.splits dest!: P Pn Rn elim: one_error_cong)
  show ?thesis
    unfolding error_step_def using ok1 no1 ok2 no2 ok3 no3 ok4 no4 ok5 no5 ok6 no6 by simp
qed

lemma error_step_all: "error_step n"
  by (induction n) (simp_all add: error_step_def [of 0] error_step_Suc)

lemma parseExpression_ok_stderr: "parseExpression n s = Some (Some e, t) \<Longrightarrow> stderr t = stderr s"
  using error_step_all [of n] unfolding error_step_def by simp

lemma parseExpression_fail_stderr: "parseExpression n s = Some (None, t) \<Longrightarrow> one_error s t"
  using error_step_all [of n] unfolding error_step_def by simp

lemma parsePrototype_names_stderr:
  "parsePrototype_names n a s = Some (r, t) \<Longrightarrow> stderr t = stderr s"
proof (induction n arbitrary: a s)
  case 0
  then show ?case by simp
next
  case (Suc n)
  show ?case
  proof (cases "cur_tok (getNextToken s) = tok_identifier")
    case True
    with Suc.prems have "parsePrototype_names n (a @ [identifier_str (getNextToken s)]) (getNextToken s) = Some (r, t)"
      by (simp add: Let_def)
    from Suc.IH [OF this] show ?thesis
      by simp
  next
    case False
    with Suc.prems show ?thesis
      by (auto simp: Let_def)
  qed
qed

lemma parsePrototype_ok_stderr: "parsePrototype n s = Some (Some p, t) \<Longrightarrow> stderr t = stderr s"
  unfolding parsePrototype_def logErrorP_def logError_def Let_def
  by (auto split: if_splits option.splits prod.splits dest!: parsePrototype_names_stderr)

lemma parsePrototype_fail_stderr: "parsePrototype n s = Some (None, t) \<Longrightarrow> one_error s t"
  unfolding parsePrototype_def logErrorP_def logError_def Let_def
  by (auto split: if_splits option.splits prod.splits dest!: parsePrototype_names_stderr
        intro: one_error_logError)

lemma parseDefinition_ok_stderr: "parseDefinition n s = Some (Some f, t) \<Longrightarrow> stderr t = stderr s"
  unfolding parseDefinition_def Let_def
  by (auto split: if_splits option.splits prod.splits
        dest!: parsePrototype_ok_stderr parseExpression_ok_stderr)

lemma parseDefinition_fail_stderr: "parseDefinition n s = Some (None, t) \<Longrightarrow> one_error s t"
  unfolding parseDefinition_def Let_def
  by (auto split: if_splits option.splits prod.splits
        dest!: parsePrototype_ok_stderr parsePrototype_fail_stderr parseExpression_fail_stderr
        elim: one_error_cong)

lemma parseExtern_ok_stderr: "parseExtern n s = Some (Some p, t) \<Longrightarrow> stderr t = stderr s"
  unfolding parseExtern_def by (auto dest!: parsePrototype_ok_stderr)

lemma parseExtern_fail_stderr: "parseExtern n s = Some (None, t) \<Longrightarrow> one_error s t"
  unfolding parseExtern_def by (auto dest!: parsePrototype_fail_stderr elim: one_error_cong)

lemma parseTopLevelExpr_ok_stderr: "parseTopLevelExpr n s = Some (Some f, t) \<Longrightarrow> stderr t = stderr s"
  unfolding parseTopLevelExpr_def Let_def
  by (auto split: option.splits prod.splits dest!: parseExpression_ok_stderr)

lemma parseTopLevelExpr_fail_stderr: "parseTopLevelExpr n s = Some (None, t) \<Longrightarrow> one_error s t"
  unfolding parseTopLevelExpr_def Let_def
  by (auto split: option.splits prod.splits dest!: parseExpression_fail_stderr)

lemma one_error_getNextToken: "one_error s t \<Longrightarrow> one_error s (getNextToken t)"
  by (simp add: one_error_def)

section \<open>Failure and recovery\<close>

text \<open>
  C6. Every parse function returns a value: a tree, or \<^verbatim>\<open>nullptr\<close> (\<open>None\<close> inside
  \<open>Some\<close>); the source has no other way out of a parse, and with enough budget the pass
  through the \<^verbatim>\<open>switch\<close> returns. A failed parse of a definition, of an extern or of a
  top-level expression has printed exactly one \<^verbatim>\<open>Error:\<close> line and nothing else (the
  first failure ends the whole construct), and the pass then consists of one
  \<open>getNextToken\<close> on the state the parse left: no tree and no \<^verbatim>\<open>Parsed\<close> line. A
  successful parse has printed nothing, and the pass reports it. The loop then goes on
  from the state the pass left.
\<close>

theorem failed_parse_recovery:
  "(cur_tok s = tok_def \<and> parseDefinition n s = Some (None, s1) \<longrightarrow>
      dispatch n s = Some (getNextToken s1) \<and> one_error s (getNextToken s1)) \<and>
   (cur_tok s = tok_extern \<and> parseExtern n s = Some (None, s1) \<longrightarrow>
      dispatch n s = Some (getNextToken s1) \<and> one_error s (getNextToken s1)) \<and>
   (cur_tok s \<noteq> 59 \<and> cur_tok s \<noteq> tok_def \<and> cur_tok s \<noteq> tok_extern \<and>
    parseTopLevelExpr n s = Some (None, s1) \<longrightarrow>
      dispatch n s = Some (getNextToken s1) \<and> one_error s (getNextToken s1)) \<and>
   (cur_tok s = tok_def \<and> parseDefinition n s = Some (Some f, s1) \<longrightarrow>
      dispatch n s = Some (fprintf_stderr ''Parsed a function definition.'' s1) \<and>
      stderr s1 = stderr s) \<and>
   (cur_tok s = tok_extern \<and> parseExtern n s = Some (Some p, s1) \<longrightarrow>
      dispatch n s = Some (fprintf_stderr ''Parsed an extern'' s1) \<and> stderr s1 = stderr s) \<and>
   (cur_tok s \<noteq> 59 \<and> cur_tok s \<noteq> tok_def \<and> cur_tok s \<noteq> tok_extern \<and>
    parseTopLevelExpr n s = Some (Some f, s1) \<longrightarrow>
      dispatch n s = Some (fprintf_stderr ''Parsed a top-level expr'' s1) \<and>
      stderr s1 = stderr s) \<and>
   (cur_tok s \<noteq> tok_eof \<and> dispatch n (fprintf_stderr ''ready> '' s) = Some t \<longrightarrow>
      mainLoop (Suc n) s = mainLoop n t) \<and>
   (4 * pending s + 5 \<le> n \<longrightarrow> (\<exists>t. dispatch n s = Some t))"
proof (intro conjI impI; (elim conjE)?)
  show "\<exists>t. dispatch n s = Some t" if "4 * pending s + 5 \<le> n"
    using dispatch_total [OF that] by auto
  show "mainLoop (Suc n) s = mainLoop n t"
    if "cur_tok s \<noteq> tok_eof" "dispatch n (fprintf_stderr ''ready> '' s) = Some t"
    using that by (simp add: Let_def)
qed (simp_all add: dispatch_def handleDefinition_def handleExtern_def
       handleTopLevelExpression_def Token_defs
       parseDefinition_ok_stderr parseExtern_ok_stderr parseTopLevelExpr_ok_stderr
       parseDefinition_fail_stderr parseExtern_fail_stderr parseTopLevelExpr_fail_stderr
       one_error_getNextToken)

text \<open>
  Six starts of the loop: \<^verbatim>\<open>def 1\<close>, \<^verbatim>\<open>extern 1\<close> and \<^verbatim>\<open>)\<close> fail, and
  \<^verbatim>\<open>def f(x) x\<close>, \<^verbatim>\<open>extern f(x)\<close> and \<^verbatim>\<open>1\<close> succeed.
\<close>

theorem failed_parse_recovery_witness:
  "let d = main_primed ''def 1''; d1 = snd (the (parseDefinition 9 d));
       x = main_primed ''extern 1''; x1 = snd (the (parseExtern 9 x));
       e = main_primed '')''; e1 = snd (the (parseTopLevelExpr 9 e));
       dk = main_primed ''def f(x) x''; dr = the (parseDefinition 9 dk);
       xk = main_primed ''extern f(x)''; xr = the (parseExtern 9 xk);
       ek = main_primed ''1''; er = the (parseTopLevelExpr 9 ek);
       i = initial_state '')''; t = the (dispatch 9 (fprintf_stderr ''ready> '' e))
   in cur_tok d = tok_def \<and> parseDefinition 9 d = Some (None, d1) \<and>
      dispatch 9 d = Some (getNextToken d1) \<and> one_error d (getNextToken d1) \<and>
      cur_tok x = tok_extern \<and> parseExtern 9 x = Some (None, x1) \<and>
      dispatch 9 x = Some (getNextToken x1) \<and> one_error x (getNextToken x1) \<and>
      cur_tok e = 41 \<and> parseTopLevelExpr 9 e = Some (None, e1) \<and>
      dispatch 9 e = Some (getNextToken e1) \<and> one_error e (getNextToken e1) \<and>
      cur_tok dk = tok_def \<and> parseDefinition 9 dk = Some (Some (the (fst dr)), snd dr) \<and>
      dispatch 9 dk = Some (fprintf_stderr ''Parsed a function definition.'' (snd dr)) \<and>
      cur_tok xk = tok_extern \<and> parseExtern 9 xk = Some (Some (the (fst xr)), snd xr) \<and>
      dispatch 9 xk = Some (fprintf_stderr ''Parsed an extern'' (snd xr)) \<and>
      cur_tok ek = tok_number \<and> parseTopLevelExpr 9 ek = Some (Some (the (fst er)), snd er) \<and>
      dispatch 9 ek = Some (fprintf_stderr ''Parsed a top-level expr'' (snd er)) \<and>
      dispatch 9 (fprintf_stderr ''ready> '' e) = Some t \<and> mainLoop (Suc 9) e = mainLoop 9 t \<and>
      pending i = 5 \<and> dispatch 25 i \<noteq> None"
proof -
  define d where "d = main_primed ''def 1''"
  define d1 where "d1 = snd (the (parseDefinition 9 d))"
  define x where "x = main_primed ''extern 1''"
  define x1 where "x1 = snd (the (parseExtern 9 x))"
  define e where "e = main_primed '')''"
  define e1 where "e1 = snd (the (parseTopLevelExpr 9 e))"
  define dk where "dk = main_primed ''def f(x) x''"
  define dr where "dr = the (parseDefinition 9 dk)"
  define xk where "xk = main_primed ''extern f(x)''"
  define xr where "xr = the (parseExtern 9 xk)"
  define ek where "ek = main_primed ''1''"
  define er where "er = the (parseTopLevelExpr 9 ek)"
  define i where "i = initial_state '')''"
  define t where "t = the (dispatch 9 (fprintf_stderr ''ready> '' e))"
  note th = failed_parse_recovery
  have d_tok: "cur_tok d = tok_def"
    unfolding d_def by code_simp
  have "map_option fst (parseDefinition 9 d) = Some None"
    unfolding d_def by code_simp
  then have d_fail: "parseDefinition 9 d = Some (None, d1)"
    unfolding d1_def by (cases "parseDefinition 9 d") auto
  note d_rec = th [THEN conjunct1, rule_format, OF conjI [OF d_tok d_fail]]
  have x_tok: "cur_tok x = tok_extern"
    unfolding x_def by code_simp
  have "map_option fst (parseExtern 9 x) = Some None"
    unfolding x_def by code_simp
  then have x_fail: "parseExtern 9 x = Some (None, x1)"
    unfolding x1_def by (cases "parseExtern 9 x") auto
  note x_rec = th [THEN conjunct2, THEN conjunct1, rule_format, OF conjI [OF x_tok x_fail]]
  have e_tok: "cur_tok e = 41"
    unfolding e_def by code_simp
  then have e_not: "cur_tok e \<noteq> 59" "cur_tok e \<noteq> tok_def" "cur_tok e \<noteq> tok_extern"
    "cur_tok e \<noteq> tok_eof"
    by (simp_all add: Token_defs)
  have "map_option fst (parseTopLevelExpr 9 e) = Some None"
    unfolding e_def by code_simp
  then have e_fail: "parseTopLevelExpr 9 e = Some (None, e1)"
    unfolding e1_def by (cases "parseTopLevelExpr 9 e") auto
  note e_rec = th [THEN conjunct2, THEN conjunct2, THEN conjunct1, rule_format,
      OF conjI [OF e_not(1) conjI [OF e_not(2) conjI [OF e_not(3) e_fail]]]]
  have dk_tok: "cur_tok dk = tok_def"
    unfolding dk_def by code_simp
  have "map_option (\<lambda>r. fst r = None) (parseDefinition 9 dk) = Some False"
    unfolding dk_def by code_simp
  then have dk_ok: "parseDefinition 9 dk = Some (Some (the (fst dr)), snd dr)"
    unfolding dr_def by (cases "parseDefinition 9 dk") auto
  note dk_rec = th [THEN conjunct2, THEN conjunct2, THEN conjunct2, THEN conjunct1, rule_format,
      OF conjI [OF dk_tok dk_ok]]
  have xk_tok: "cur_tok xk = tok_extern"
    unfolding xk_def by code_simp
  have "map_option (\<lambda>r. fst r = None) (parseExtern 9 xk) = Some False"
    unfolding xk_def by code_simp
  then have xk_ok: "parseExtern 9 xk = Some (Some (the (fst xr)), snd xr)"
    unfolding xr_def by (cases "parseExtern 9 xk") auto
  note xk_rec = th [THEN conjunct2, THEN conjunct2, THEN conjunct2, THEN conjunct2,
      THEN conjunct1, rule_format, OF conjI [OF xk_tok xk_ok]]
  have ek_tok: "cur_tok ek = tok_number"
    unfolding ek_def by code_simp
  then have ek_not: "cur_tok ek \<noteq> 59" "cur_tok ek \<noteq> tok_def" "cur_tok ek \<noteq> tok_extern"
    by (simp_all add: Token_defs)
  have "map_option (\<lambda>r. fst r = None) (parseTopLevelExpr 9 ek) = Some False"
    unfolding ek_def by code_simp
  then have ek_ok: "parseTopLevelExpr 9 ek = Some (Some (the (fst er)), snd er)"
    unfolding er_def by (cases "parseTopLevelExpr 9 ek") auto
  note ek_rec = th [THEN conjunct2, THEN conjunct2, THEN conjunct2, THEN conjunct2,
      THEN conjunct2, THEN conjunct1, rule_format,
      OF conjI [OF ek_not(1) conjI [OF ek_not(2) conjI [OF ek_not(3) ek_ok]]]]
  have "dispatch 9 (fprintf_stderr ''ready> '' e) \<noteq> None"
    unfolding e_def by code_simp
  then have loop_d: "dispatch 9 (fprintf_stderr ''ready> '' e) = Some t"
    unfolding t_def by auto
  note loop = th [THEN conjunct2, THEN conjunct2, THEN conjunct2, THEN conjunct2,
      THEN conjunct2, THEN conjunct2, THEN conjunct1, rule_format, OF conjI [OF e_not(4) loop_d]]
  have i_pending: "pending i = 5"
    unfolding i_def by code_simp
  then have "4 * pending i + 5 \<le> 25"
    by simp
  from th [THEN conjunct2, THEN conjunct2, THEN conjunct2, THEN conjunct2,
      THEN conjunct2, THEN conjunct2, THEN conjunct2, rule_format, OF this]
  have i_ret: "dispatch 25 i \<noteq> None"
    by auto
  from d_tok d_fail d_rec x_tok x_fail x_rec e_tok e_fail e_rec dk_tok dk_ok dk_rec
    xk_tok xk_ok xk_rec ek_tok ek_ok ek_rec loop_d loop i_pending i_ret
  show ?thesis
    unfolding Let_def d_def [symmetric] d1_def [symmetric] x_def [symmetric] x1_def [symmetric]
      e_def [symmetric] e1_def [symmetric] dk_def [symmetric] dr_def [symmetric]
      xk_def [symmetric] xr_def [symmetric] ek_def [symmetric] er_def [symmetric]
      i_def [symmetric] t_def [symmetric]
    by (simp del: mainLoop.simps)
qed

end
